theory Spec2Isabelle
  imports Main "HOL-Library.Sublist"
begin

section \<open>Text: Python strings over the code points below 256\<close>

text \<open>
  A Python \<open>str\<close> is modelled as a \<open>string\<close>; a \<open>char\<close> stands for the code point of
  the same number, so the model covers text whose code points are below 256. The
  character classes below are those of Python 3 on that range.
\<close>

definition LF :: char where
  "LF = CHR 0x0A"

definition CR :: char where
  "CR = CHR 0x0D"

definition code :: "char \<Rightarrow> nat" where
  "code c = of_char c"

text \<open>\<open>\s\<close> of the \<open>re\<close> module on \<open>str\<close>: the code points Python calls whitespace.\<close>

definition is_space :: "char \<Rightarrow> bool" where
  "is_space c = (let n = code c in
     (9 \<le> n \<and> n \<le> 13) \<or> (28 \<le> n \<and> n \<le> 32) \<or> n = 133 \<or> n = 160)"

text \<open>\<open>\d\<close>: the decimal digits.\<close>

definition is_digit :: "char \<Rightarrow> bool" where
  "is_digit c = (let n = code c in 48 \<le> n \<and> n \<le> 57)"

text \<open>\<open>\w\<close>: alphanumeric code points and the underscore.\<close>

definition is_word :: "char \<Rightarrow> bool" where
  "is_word c = (let n = code c in
     (48 \<le> n \<and> n \<le> 57) \<or> (65 \<le> n \<and> n \<le> 90) \<or> n = 95 \<or> (97 \<le> n \<and> n \<le> 122) \<or>
     n = 170 \<or> n = 178 \<or> n = 179 \<or> n = 181 \<or> n = 185 \<or> n = 186 \<or>
     (188 \<le> n \<and> n \<le> 190) \<or> (192 \<le> n \<and> n \<le> 214) \<or> (216 \<le> n \<and> n \<le> 246) \<or>
     (248 \<le> n \<and> n \<le> 255))"

text \<open>\<open>[.\w]\<close>\<close>

definition is_dot_word :: "char \<Rightarrow> bool" where
  "is_dot_word c = (c = CHR ''.'' \<or> is_word c)"

text \<open>The line boundaries of \<open>str.splitlines\<close>.\<close>

definition is_linebreak :: "char \<Rightarrow> bool" where
  "is_linebreak c = (let n = code c in
     (10 \<le> n \<and> n \<le> 13) \<or> (28 \<le> n \<and> n \<le> 30) \<or> n = 133)"

text \<open>\<open>str.lower\<close> on one code point.\<close>

definition lower_char :: "char \<Rightarrow> char" where
  "lower_char c = (let n = code c in
     if (65 \<le> n \<and> n \<le> 90) \<or> (192 \<le> n \<and> n \<le> 214) \<or> (216 \<le> n \<and> n \<le> 222)
     then char_of (n + 32) else c)"

definition lower :: "string \<Rightarrow> string" where
  "lower s = map lower_char s"

text \<open>\<open>sub in s\<close> on strings.\<close>

fun py_in :: "string \<Rightarrow> string \<Rightarrow> bool" where
  "py_in sub [] = (sub = [])"
| "py_in sub (c # cs) = (prefix sub (c # cs) \<or> py_in sub cs)"

text \<open>\<open>s.rstrip("\n")\<close>\<close>

definition rstrip_nl :: "string \<Rightarrow> string" where
  "rstrip_nl s = rev (dropWhile (\<lambda>c. c = LF) (rev s))"

text \<open>\<open>s.splitlines(True)\<close>: the lines keep their boundary; CR LF is one boundary.\<close>

fun splitlines :: "string \<Rightarrow> string list" where
  "splitlines [] = []"
| "splitlines (c # cs) =
     (if c = CR \<and> (case cs of [] \<Rightarrow> False | d # _ \<Rightarrow> d = LF) then [c, LF] # splitlines (tl cs)
      else if is_linebreak c then [c] # splitlines cs
      else (case splitlines cs of [] \<Rightarrow> [[c]] | l # ls \<Rightarrow> (c # l) # ls))"

section \<open>The regular expressions of the script\<close>

text \<open>
  The fragment of \<open>re\<close> syntax the script uses, compiled with \<open>re.IGNORECASE\<close>: a
  character class, a literal character (compared ignoring case), sequence, alternation,
  the greedy \<open>*\<close> and \<open>?\<close>, the capturing group 1 and \<open>$\<close>. A leading \<open>^\<close> is
  not represented: \<open>match\<close> starts at the beginning of the string, where \<open>^\<close> holds.
\<close>

datatype rx = Eps | Cls "char \<Rightarrow> bool" | Lit char | Seq rx rx | Alt rx rx | Star rx
  | Opt rx | Grp rx | Eol

text \<open>
  The backtracking matcher: every way to match a prefix of the input, in the order the
  engine tries them, each as the rest of the input with what group 1 captured.
\<close>

fun bt :: "rx \<Rightarrow> string \<Rightarrow> (string \<times> string option) list" where
  "bt Eps s = [(s, None)]"
| "bt (Cls P) s = (case s of [] \<Rightarrow> [] | c # cs \<Rightarrow> if P c then [(cs, None)] else [])"
| "bt (Lit a) s =
     (case s of [] \<Rightarrow> [] | c # cs \<Rightarrow> if lower_char c = lower_char a then [(cs, None)] else [])"
| "bt (Seq a b) s =
     concat (map (\<lambda>(s1, g1). map (\<lambda>(s2, g2). (s2, case g2 of None \<Rightarrow> g1 | Some x \<Rightarrow> Some x))
                                  (bt b s1)) (bt a s))"
| "bt (Alt a b) s = bt a s @ bt b s"
| "bt (Star a) s =
     concat (map (\<lambda>(s1, g1). if length s1 < length s then bt (Star a) s1 else []) (bt a s))
     @ [(s, None)]"
| "bt (Opt a) s = bt a s @ [(s, None)]"
| "bt (Grp a) s = map (\<lambda>(s1, g1). (s1, Some (take (length s - length s1) s))) (bt a s)"
| "bt Eol s = (if s = [] \<or> s = [LF] then [(s, None)] else [])"

text \<open>\<open>pattern.match(s)\<close>: the first way found, or no match.\<close>

definition re_match :: "rx \<Rightarrow> string \<Rightarrow> string option option" where
  "re_match r s = (case bt r s of [] \<Rightarrow> None | (rest, g) # _ \<Rightarrow> Some g)"

text \<open>A sequence of pieces, and a word of the pattern character by character.\<close>

fun seqs :: "rx list \<Rightarrow> rx" where
  "seqs [] = Eps"
| "seqs (r # rs) = Seq r (seqs rs)"

definition lits :: "string \<Rightarrow> rx" where
  "lits s = seqs (map Lit s)"

text \<open>
  \<^verbatim>\<open>Resource\w*Face\w*(?:Diffuse|NormalMap)(?:[.\w]*)?\<close>, the inside of group 1
  (FaceFix 0.7.8 and 0.7.9).
\<close>

definition resource_rx :: rx where
  "resource_rx = seqs
     [lits ''Resource'', Star (Cls is_word), lits ''Face'', Star (Cls is_word),
      Alt (lits ''Diffuse'') (lits ''NormalMap''), Opt (Star (Cls is_dot_word))]"

text \<open>
  \<^verbatim>\<open>^\s*ps-t\d+\s*=\s*(Resource\w*Face\w*(?:Diffuse|NormalMap)(?:[.\w]*)?)\s*$\<close>;
  \<open>\d+\<close> is written \<open>\d\d*\<close>.
\<close>

definition pattern :: rx where
  "pattern = seqs
     [Star (Cls is_space), lits ''ps-t'', Cls is_digit, Star (Cls is_digit),
      Star (Cls is_space), Lit CHR ''='', Star (Cls is_space), Grp resource_rx,
      Star (Cls is_space), Eol]"

text \<open>\<^verbatim>\<open>^(\s*)\<close>, which reads the indentation of a line.\<close>

definition indent_rx :: rx where
  "indent_rx = Grp (Star (Cls is_space))"

section \<open>The rewrite engine (FaceFix 0.7.9, \<open>smart_replace\<close>)\<close>

datatype py_error = FileNotFoundError | PermissionError | UnicodeDecodeError | SameFileError
  | AttributeError | EOFError

text \<open>A changed line: its number, the old text and the new text, both without the newline.\<close>

type_synonym change = "nat \<times> string \<times> string"

text \<open>\<open>match.group(1)\<close> inside an f-string; a group that took no part reads \<open>None\<close>.\<close>

definition group1 :: "string option \<Rightarrow> string" where
  "group1 g = (case g of None \<Rightarrow> ''None'' | Some x \<Rightarrow> x)"

text \<open>
  The body of the loop over the lines: the rewritten line when the line matches, nothing
  when it does not. \<open>re.match(r'^(\s*)', line).group(1)\<close> raises when there is no match.
\<close>

definition rewrite_line :: "string \<Rightarrow> py_error + string option" where
  "rewrite_line line =
     (case re_match pattern (rstrip_nl line) of
        None \<Rightarrow> Inr None
      | Some rhs \<Rightarrow>
          (case re_match indent_rx line of
             None \<Rightarrow> Inl AttributeError
           | Some indent \<Rightarrow> Inr (Some (group1 indent @ ''this = '' @ group1 rhs @ [LF]))))"

text \<open>The loop \<open>for idx, line in enumerate(lines, 1)\<close> with its two accumulators.\<close>

fun scan :: "nat \<Rightarrow> string list \<Rightarrow> string list \<Rightarrow> change list
    \<Rightarrow> py_error + (string list \<times> change list)" where
  "scan idx [] new_lines changed_lines = Inr (new_lines, changed_lines)"
| "scan idx (line # rest) new_lines changed_lines =
     (case rewrite_line line of
        Inl e \<Rightarrow> Inl e
      | Inr None \<Rightarrow> scan (idx + 1) rest (new_lines @ [line]) changed_lines
      | Inr (Some new_line) \<Rightarrow>
          scan (idx + 1) rest (new_lines @ [new_line])
            (changed_lines @ [(idx, rstrip_nl line, rstrip_nl new_line)]))"

subsection \<open>Files\<close>

text \<open>
  A file holds text (the bytes are its UTF-8 encoding) or bytes that are not UTF-8.
  The world is the files, which of them cannot be opened for reading or for writing,
  whether \<open>os.linesep\<close> is CR LF, the file-system calls made so far and the console.
  Paths are those of \<open>posixpath\<close>.
\<close>

type_synonym path = string

datatype disk_file = Text string | Garbled string

datatype call = Read_text path | Copy path path | Write_text path

text \<open>
  What the script prints. The colour codes around \<open>ps-tN\<close> and \<open>this\<close> in a preview
  line are decoration and are not part of the message here.
\<close>

datatype message = Preview_header path | Preview_line nat string string | Backup_saved path
  | Error_processing path py_error

record world =
  files :: "path \<Rightarrow> disk_file option"
  no_read :: "path \<Rightarrow> bool"
  no_write :: "path \<Rightarrow> bool"
  crlf :: bool
  calls :: "call list"
  console :: "message list"

text \<open>Reading in text mode turns CR LF and CR into LF.\<close>

fun universal_newlines :: "string \<Rightarrow> string" where
  "universal_newlines [] = []"
| "universal_newlines [c] = (if c = CR then [LF] else [c])"
| "universal_newlines (c # d # ds) =
     (if c = CR \<and> d = LF then LF # universal_newlines ds
      else if c = CR then LF # universal_newlines (d # ds)
      else c # universal_newlines (d # ds))"

text \<open>Writing in text mode turns LF into \<open>os.linesep\<close>.\<close>

definition write_newlines :: "bool \<Rightarrow> string \<Rightarrow> string" where
  "write_newlines win s = (if win then concat (map (\<lambda>c. if c = LF then [CR, LF] else [c]) s) else s)"

text \<open>\<open>open(p, "r", encoding="utf-8")\<close> and \<open>f.read()\<close>\<close>

definition read_text :: "path \<Rightarrow> world \<Rightarrow> (py_error + string) \<times> world" where
  "read_text p w =
     (let w' = w\<lparr>calls := calls w @ [Read_text p]\<rparr> in
      case files w p of
        None \<Rightarrow> (Inl FileNotFoundError, w')
      | Some f \<Rightarrow>
          if no_read w p then (Inl PermissionError, w')
          else (case f of
                  Garbled b \<Rightarrow> (Inl UnicodeDecodeError, w')
                | Text t \<Rightarrow> (Inr (universal_newlines t), w')))"

text \<open>\<open>shutil.copyfile(src, dst)\<close>: the bytes of the file, whatever they are.\<close>

definition copyfile :: "path \<Rightarrow> path \<Rightarrow> world \<Rightarrow> (py_error + unit) \<times> world" where
  "copyfile src dst w =
     (let w' = w\<lparr>calls := calls w @ [Copy src dst]\<rparr> in
      if src = dst then (Inl SameFileError, w')
      else (case files w src of
              None \<Rightarrow> (Inl FileNotFoundError, w')
            | Some f \<Rightarrow>
                if no_read w src \<or> no_write w dst then (Inl PermissionError, w')
                else (Inr (), w'\<lparr>files := (files w)(dst \<mapsto> f)\<rparr>)))"

text \<open>\<open>open(p, "w", encoding="utf-8")\<close> and \<open>f.writelines(new_lines)\<close>\<close>

definition write_lines :: "path \<Rightarrow> string list \<Rightarrow> world \<Rightarrow> (py_error + unit) \<times> world" where
  "write_lines p ls w =
     (let w' = w\<lparr>calls := calls w @ [Write_text p]\<rparr> in
      if no_write w p then (Inl PermissionError, w')
      else (Inr (), w'\<lparr>files := (files w)(p \<mapsto> Text (write_newlines (crlf w) (concat ls)))\<rparr>))"

definition print_msg :: "message \<Rightarrow> world \<Rightarrow> world" where
  "print_msg m w = w\<lparr>console := console w @ [m]\<rparr>"

text \<open>\<open>s.rfind(c)\<close>: the index of the last \<open>c\<close>, or -1.\<close>

fun rfind :: "char \<Rightarrow> string \<Rightarrow> int" where
  "rfind c [] = - 1"
| "rfind c (x # xs) = (let r = rfind c xs in if 0 \<le> r then r + 1 else if x = c then 0 else - 1)"

text \<open>
  \<open>os.path.splitext\<close>: the extension starts at the last dot of the last component, unless
  only dots come before it in that component.
\<close>

definition splitext :: "path \<Rightarrow> path \<times> string" where
  "splitext p =
     (let sepIndex = rfind CHR ''/'' p; dotIndex = rfind CHR ''.'' p in
      if sepIndex < dotIndex \<and>
         list_ex (\<lambda>k. p ! k \<noteq> CHR ''.'') [nat (sepIndex + 1) ..< nat dotIndex]
      then (take (nat dotIndex) p, drop (nat dotIndex) p) else (p, []))"

definition backup_path :: "path \<Rightarrow> path" where
  "backup_path file_path = fst (splitext file_path) @ ''_backup.bak''"

text \<open>The preview: a header, then one line for each change.\<close>

definition print_preview :: "path \<Rightarrow> change list \<Rightarrow> world \<Rightarrow> world" where
  "print_preview file_path changed_lines w =
     fold (\<lambda>(idx, old, new). print_msg (Preview_line idx old new)) changed_lines
       (print_msg (Preview_header file_path) w)"

text \<open>The backup step of an apply.\<close>

definition make_backup_file :: "path \<Rightarrow> world \<Rightarrow> (py_error + unit) \<times> world" where
  "make_backup_file file_path w =
     (case copyfile file_path (backup_path file_path) w of
        (Inl e, w') \<Rightarrow> (Inl e, w')
      | (Inr u, w') \<Rightarrow> (Inr (), print_msg (Backup_saved (backup_path file_path)) w'))"

text \<open>The \<open>try\<close> block of \<open>smart_replace\<close>: an exception is the result \<open>Inl\<close>.\<close>

definition smart_replace_try :: "path \<Rightarrow> bool \<Rightarrow> bool \<Rightarrow> bool \<Rightarrow> bool \<Rightarrow> world
    \<Rightarrow> (py_error + bool \<times> change list) \<times> world" where
  "smart_replace_try file_path make_backup preview apply_changes process_disabled w =
     (case read_text file_path w of
        (Inl e, w1) \<Rightarrow> (Inl e, w1)
      | (Inr content, w1) \<Rightarrow>
          if py_in ''DISABLED'' content \<and> \<not> process_disabled then (Inr (False, []), w1)
          else
            (case scan 1 (splitlines content) [] [] of
               Inl e \<Rightarrow> (Inl e, w1)
             | Inr (new_lines, changed_lines) \<Rightarrow>
                 if changed_lines = [] then (Inr (False, []), w1)
                 else
                   (let w2 = (if preview then print_preview file_path changed_lines w1 else w1) in
                    if apply_changes then
                      (case (if make_backup then make_backup_file file_path w2 else (Inr (), w2)) of
                         (Inl e, w3) \<Rightarrow> (Inl e, w3)
                       | (Inr u, w3) \<Rightarrow>
                           (case write_lines file_path new_lines w3 of
                              (Inl e, w4) \<Rightarrow> (Inl e, w4)
                            | (Inr v, w4) \<Rightarrow> (Inr (True, changed_lines), w4)))
                    else (Inr (True, changed_lines), w2))))"

text \<open>\<open>smart_replace\<close>: the \<open>try\<close> block and its \<open>except Exception\<close> handler.\<close>

definition smart_replace :: "path \<Rightarrow> bool \<Rightarrow> bool \<Rightarrow> bool \<Rightarrow> bool \<Rightarrow> world
    \<Rightarrow> (bool \<times> change list) \<times> world" where
  "smart_replace file_path make_backup preview apply_changes process_disabled w =
     (case smart_replace_try file_path make_backup preview apply_changes process_disabled w of
        (Inl e, w') \<Rightarrow> ((False, []), print_msg (Error_processing file_path e) w')
      | (Inr r, w') \<Rightarrow> (r, w'))"

section \<open>Closed forms used in the proofs\<close>

text \<open>Every character a regular expression can consume satisfies \<open>Q\<close>.\<close>

fun only :: "(char \<Rightarrow> bool) \<Rightarrow> rx \<Rightarrow> bool" where
  "only Q Eps = True"
| "only Q (Cls P) = (\<forall>c. P c \<longrightarrow> Q c)"
| "only Q (Lit a) = (\<forall>c. lower_char c = lower_char a \<longrightarrow> Q c)"
| "only Q (Seq a b) = (only Q a \<and> only Q b)"
| "only Q (Alt a b) = (only Q a \<and> only Q b)"
| "only Q (Star a) = only Q a"
| "only Q (Opt a) = only Q a"
| "only Q (Grp a) = only Q a"
| "only Q Eol = True"

text \<open>\<^verbatim>\<open>\s*$\<close>, and group 1 followed by it: the end of the pattern.\<close>

definition tail_rx :: rx where
  "tail_rx = Seq (Star (Cls is_space)) (Seq Eol Eps)"

definition rhs_rx :: rx where
  "rhs_rx = Seq (Grp resource_rx) tail_rx"

text \<open>Removing a word from the front of a string, ignoring case.\<close>

definition strip_ci :: "string \<Rightarrow> string \<Rightarrow> string option" where
  "strip_ci w s =
     (if length w \<le> length s \<and> lower (take (length w) s) = lower w
      then Some (drop (length w) s) else None)"

text \<open>
  What is left of a string after \<^verbatim>\<open>\s*ps-t\d+\s*=\s*\<close>, read deterministically; the
  lemma \<open>bt_pattern\<close> shows that the backtracking matcher does the same.
\<close>

definition after_lhs :: "string \<Rightarrow> string option" where
  "after_lhs s =
     (case strip_ci ''ps-t'' (dropWhile is_space s) of
        None \<Rightarrow> None
      | Some s1 \<Rightarrow>
         (case s1 of
            [] \<Rightarrow> None
          | d # s2 \<Rightarrow>
              if is_digit d then
                (case dropWhile is_space (dropWhile is_digit s2) of
                   [] \<Rightarrow> None
                 | e # s4 \<Rightarrow> if e = CHR ''='' then Some (dropWhile is_space s4) else None)
              else None))"

text \<open>
  The loop of \<open>smart_replace\<close> in closed form: the new line for a line, and the changes
  recorded from a list of lines; the lemma \<open>scan_closed\<close> shows that the loop computes them.
\<close>

definition new_line_of :: "string \<Rightarrow> string" where
  "new_line_of line =
     (case re_match pattern (rstrip_nl line) of
        None \<Rightarrow> line
      | Some rhs \<Rightarrow> takeWhile is_space line @ ''this = '' @ group1 rhs @ [LF])"

fun changes_from :: "nat \<Rightarrow> string list \<Rightarrow> change list" where
  "changes_from idx [] = []"
| "changes_from idx (line # rest) =
     (case re_match pattern (rstrip_nl line) of
        None \<Rightarrow> changes_from (idx + 1) rest
      | Some rhs \<Rightarrow> (idx, rstrip_nl line, rstrip_nl (new_line_of line)) # changes_from (idx + 1) rest)"

fun wf_lines :: "string list \<Rightarrow> bool" where
  "wf_lines [] = True"
| "wf_lines (l # ls) =
     (l \<noteq> [] \<and> CR \<notin> set l \<and> (\<forall>c\<in>set (butlast l). \<not> is_linebreak c) \<and>
      (ls \<noteq> [] \<longrightarrow> is_linebreak (last l)) \<and> wf_lines ls)"

definition after_scan :: "path \<Rightarrow> bool \<Rightarrow> bool \<Rightarrow> bool \<Rightarrow> string list \<Rightarrow> change list \<Rightarrow> world
    \<Rightarrow> (py_error + bool \<times> change list) \<times> world" where
  "after_scan file_path make_backup preview apply_changes new_lines changed_lines w1 =
     (let w2 = (if preview then print_preview file_path changed_lines w1 else w1) in
      if apply_changes then
        (case (if make_backup then make_backup_file file_path w2 else (Inr (), w2)) of
           (Inl e, w3) \<Rightarrow> (Inl e, w3)
         | (Inr u, w3) \<Rightarrow>
             (case write_lines file_path new_lines w3 of
                (Inl e, w4) \<Rightarrow> (Inl e, w4)
              | (Inr v, w4) \<Rightarrow> (Inr (True, changed_lines), w4)))
      else (Inr (True, changed_lines), w2))"

definition demo_text :: string where
  "demo_text = ''[TextureOverrideFace]'' @ [LF] @ ''  ps-t0 = ResourceFaceDiffuse.normal'' @ [LF]"

definition demo_world :: world where
  "demo_world =
     \<lparr>files = (\<lambda>q. if q = ''mods/face.ini'' then Some (Text demo_text) else None),
      no_read = (\<lambda>q. False), no_write = (\<lambda>q. False), crlf = False, calls = [], console = []\<rparr>"

definition demo_off_text :: string where
  "demo_off_text = ''; DISABLED'' @ [LF] @ ''  ps-t0 = ResourceFaceDiffuse.normal'' @ [LF]"

definition demo_off_world :: world where
  "demo_off_world =
     \<lparr>files = (\<lambda>q. if q = ''mods/off.ini'' then Some (Text demo_off_text) else None),
      no_read = (\<lambda>q. False), no_write = (\<lambda>q. False), crlf = False, calls = [], console = []\<rparr>"

definition demo_locked_world :: world where
  "demo_locked_world =
     \<lparr>files = (\<lambda>q. if q = ''mods/face.ini'' then Some (Text demo_text) else None),
      no_read = (\<lambda>q. False), no_write = (\<lambda>q. True), crlf = False, calls = [], console = []\<rparr>"


definition demo_backup_world :: world where
  "demo_backup_world =
     \<lparr>files = (\<lambda>q. if q = ''mods/face.ini'' then Some (Text demo_text)
                     else if q = ''mods/face_backup.bak'' then Some (Text ''an older backup'')
                     else None),
      no_read = (\<lambda>q. False), no_write = (\<lambda>q. False), crlf = False, calls = [], console = []\<rparr>"

section \<open>The matcher on the pattern\<close>

declare bt.simps(6) [simp del]

lemma code_char_of: "code (char_of n) = n mod 256"
  by (simp add: code_def)

lemma code_inj: "code c = code d \<longleftrightarrow> c = d"
  by (simp add: code_def)

lemma code_less: "code c < 256"
  by (simp add: code_def)

lemma code_lower_char:
  "code (lower_char c) =
     (if (65 \<le> code c \<and> code c \<le> 90) \<or> (192 \<le> code c \<and> code c \<le> 214) \<or> (216 \<le> code c \<and> code c \<le> 222)
      then code c + 32 else code c)"
  by (auto simp: lower_char_def Let_def code_char_of)

lemma bt_Star_Cls_Nil: "bt (Star (Cls P)) [] = [([], None)]"
  by (simp add: bt.simps(6))

lemma bt_Star_Cls_Cons:
  "bt (Star (Cls P)) (c # cs) =
     (if P c then bt (Star (Cls P)) cs @ [(c # cs, None)] else [(c # cs, None)])"
  by (simp add: bt.simps(6))

lemma regroup_None: "map (\<lambda>(s2, g2). (s2, case g2 of None \<Rightarrow> None | Some x \<Rightarrow> Some x)) xs = xs"
  by (induction xs) (auto split: option.splits)

lemma bt_Seq_skip:
  assumes "\<And>c t. P c \<Longrightarrow> bt r (c # t) = []"
  shows "bt (Seq (Star (Cls P)) r) s = bt r (dropWhile P s)"
proof (induction s)
  case Nil
  show ?case by (simp add: bt_Star_Cls_Nil regroup_None)
next
  case (Cons c cs)
  show ?case
  proof (cases "P c")
    case True
    have "bt (Seq (Star (Cls P)) r) (c # cs) = bt (Seq (Star (Cls P)) r) cs @ bt r (c # cs)"
      using True by (simp add: bt_Star_Cls_Cons regroup_None)
    with True Cons assms show ?thesis by simp
  next
    case False
    then show ?thesis by (simp add: bt_Star_Cls_Cons regroup_None)
  qed
qed

lemma bt_Seq_one: "bt a s = [(s1, None)] \<Longrightarrow> bt (Seq a b) s = bt b s1"
  by (simp add: regroup_None)

lemma bt_Seq_none: "bt a s = [] \<Longrightarrow> bt (Seq a b) s = []"
  by simp

lemma bt_Seq_Lit:
  "bt (Seq (Lit a) b) s =
     (case s of [] \<Rightarrow> [] | c # cs \<Rightarrow> if lower_char c = lower_char a then bt b cs else [])"
  by (simp add: regroup_None split: list.splits)

lemma bt_Seq_Cls:
  "bt (Seq (Cls P) b) s = (case s of [] \<Rightarrow> [] | c # cs \<Rightarrow> if P c then bt b cs else [])"
  by (simp add: regroup_None split: list.splits)

lemma bt_lits:
  "bt (lits w) s =
     (if length w \<le> length s \<and> lower (take (length w) s) = lower w
      then [(drop (length w) s, None)] else [])"
proof (induction w arbitrary: s)
  case Nil
  show ?case by (simp add: lits_def lower_def)
next
  case (Cons a w)
  have "bt (lits (a # w)) s = bt (Seq (Lit a) (lits w)) s"
    by (simp add: lits_def)
  then show ?case
    using Cons by (cases s) (auto simp: bt_Seq_Lit lower_def simp del: bt.simps)
qed

lemma bt_consumes:
  "only Q r \<Longrightarrow> (s', g) \<in> set (bt r s) \<Longrightarrow> \<exists>w. s = w @ s' \<and> (\<forall>c\<in>set w. Q c)"
proof (induction r s arbitrary: s' g rule: bt.induct)
  case (1 s)
  then show ?case by simp
next
  case (2 P s)
  then show ?case by (cases s) (auto split: if_splits)
next
  case (3 a s)
  then show ?case by (cases s) (auto split: if_splits)
next
  case (4 a b s)
  from "4.prems"(2) obtain s1 g1 g2 where
    a: "(s1, g1) \<in> set (bt a s)" and b: "(s', g2) \<in> set (bt b s1)"
    by auto
  from "4.IH"(1) [OF _ a] "4.prems"(1) obtain w1 where w1: "s = w1 @ s1" "\<forall>c\<in>set w1. Q c"
    by auto
  from "4.IH"(2) [OF a refl _ b] "4.prems"(1) obtain w2 where w2: "s1 = w2 @ s'" "\<forall>c\<in>set w2. Q c"
    by auto
  from w1 w2 have "s = (w1 @ w2) @ s' \<and> (\<forall>c\<in>set (w1 @ w2). Q c)" by auto
  then show ?case by blast
next
  case (5 a b s)
  then show ?case by auto
next
  case (6 a s)
  from "6.prems"(2) consider
    (stop) "s' = s" |
    (iter) s1 g1 where "(s1, g1) \<in> set (bt a s)" "length s1 < length s" "(s', g) \<in> set (bt (Star a) s1)"
    unfolding bt.simps(6) [of a s] by (auto split: if_splits)
  then show ?case
  proof cases
    case stop
    then have "s = [] @ s' \<and> (\<forall>c\<in>set []. Q c)" by simp
    then show ?thesis by blast
  next
    case iter
    from "6.IH"(1) [OF _ iter(1)] "6.prems"(1) obtain w1 where w1: "s = w1 @ s1" "\<forall>c\<in>set w1. Q c"
      by auto
    from "6.IH"(2) [OF iter(1) refl iter(2) _ iter(3)] "6.prems"(1)
    obtain w2 where w2: "s1 = w2 @ s'" "\<forall>c\<in>set w2. Q c"
      by auto
    from w1 w2 have "s = (w1 @ w2) @ s' \<and> (\<forall>c\<in>set (w1 @ w2). Q c)" by auto
    then show ?thesis by blast
  qed
next
  case (7 a s)
  then show ?case by auto
next
  case (8 a s)
  then show ?case by auto
next
  case (9 s)
  then show ?case by (auto split: if_splits)
qed

lemma pattern_unfold:
  "pattern = Seq (Star (Cls is_space)) (Seq (lits ''ps-t'') (Seq (Cls is_digit)
     (Seq (Star (Cls is_digit)) (Seq (Star (Cls is_space)) (Seq (Lit CHR ''='')
       (Seq (Star (Cls is_space)) rhs_rx))))))"
  by (simp add: pattern_def rhs_rx_def tail_rx_def)

lemma bt_Seq_lits:
  "bt (Seq (lits w) b) s = (case strip_ci w s of None \<Rightarrow> [] | Some s' \<Rightarrow> bt b s')"
  using bt_Seq_one [of "lits w" s "drop (length w) s" b] bt_Seq_none [of "lits w" s b]
  by (simp only: bt_lits strip_ci_def split: if_splits) auto

lemma strip_ci_Cons:
  "strip_ci (a # w) (c # t) = (if lower_char c = lower_char a then strip_ci w t else None)"
  by (auto simp: strip_ci_def lower_def)

lemma space_not_p: "is_space c \<Longrightarrow> lower_char c \<noteq> CHR ''p''"
  by (auto simp: is_space_def Let_def code_inj [symmetric] code_lower_char) (simp_all add: code_def)

lemma lower_pst: "lower ''ps-t'' = ''ps-t''"
  by code_simp

lemma lower_eq_sign: "lower_char c = lower_char CHR ''='' \<longleftrightarrow> c = CHR ''=''"
proof -
  have "code (lower_char c) = 61 \<longleftrightarrow> code c = 61"
    by (auto simp: code_lower_char)
  moreover have "code (lower_char CHR ''='') = 61" "code CHR ''='' = 61"
    by (simp_all add: code_lower_char) (simp_all add: code_def)
  ultimately show ?thesis
    by (metis code_inj)
qed

lemma space_not_eq_sign: "is_space c \<Longrightarrow> c \<noteq> CHR ''=''"
  by (auto simp: is_space_def Let_def code_def)

lemma digit_not_eq_sign: "is_digit c \<Longrightarrow> c \<noteq> CHR ''=''"
  by (auto simp: is_digit_def Let_def code_def)

lemma digit_not_space: "is_digit c \<Longrightarrow> \<not> is_space c"
  by (auto simp: is_digit_def is_space_def Let_def)

lemma space_not_r: "is_space c \<Longrightarrow> lower_char c \<noteq> CHR ''r''"
  by (auto simp: is_space_def Let_def code_inj [symmetric] code_lower_char) (simp_all add: code_def)

lemma lower_Resource: "lower ''Resource'' = ''resource''"
  by code_simp

lemma lower_char_r: "lower_char CHR ''R'' = CHR ''r''" "lower_char CHR ''p'' = CHR ''p''"
  by code_simp+

lemma rhs_rejects_space: "is_space c \<Longrightarrow> bt rhs_rx (c # t) = []"
proof -
  assume sp: "is_space c"
  have r: "resource_rx = Seq (lits ''Resource'') (seqs [Star (Cls is_word), lits ''Face'',
      Star (Cls is_word), Alt (lits ''Diffuse'') (lits ''NormalMap''), Opt (Star (Cls is_dot_word))])"
    by (simp add: resource_rx_def)
  have "bt resource_rx (c # t) = []"
    unfolding r using space_not_r [OF sp] by (simp only: bt_Seq_lits strip_ci_Cons lower_char_r) simp
  then show ?thesis
    by (simp add: rhs_rx_def)
qed

lemma eq_rejects_space: "is_space c \<Longrightarrow> bt (Seq (Lit CHR ''='') b) (c # t) = []"
  by (simp only: bt_Seq_Lit lower_eq_sign) (auto dest: space_not_eq_sign)

lemma eq_rejects_digit:
  "is_digit c \<Longrightarrow> bt (Seq (Star (Cls is_space)) (Seq (Lit CHR ''='') b)) (c # t) = []"
  by (simp only: bt_Seq_skip [OF eq_rejects_space] bt_Seq_Lit lower_eq_sign)
     (auto dest: digit_not_eq_sign digit_not_space)

lemma pst_rejects_space: "is_space c \<Longrightarrow> bt (Seq (lits ''ps-t'') b) (c # t) = []"
  using space_not_p [of c] by (simp only: bt_Seq_lits strip_ci_Cons lower_char_r) simp

lemma dropWhile_Cons_not_all: "dropWhile P xs = y # ys \<Longrightarrow> \<forall>x\<in>set xs. P x \<Longrightarrow> False"
  by (induction xs) (auto split: if_splits)

lemma bt_pattern:
  "bt pattern s = (case after_lhs s of None \<Rightarrow> [] | Some s5 \<Rightarrow> bt rhs_rx s5)"
proof -
  have "bt pattern s = bt (Seq (lits ''ps-t'') (Seq (Cls is_digit)
     (Seq (Star (Cls is_digit)) (Seq (Star (Cls is_space)) (Seq (Lit CHR ''='')
       (Seq (Star (Cls is_space)) rhs_rx)))))) (dropWhile is_space s)"
    unfolding pattern_unfold by (rule bt_Seq_skip) (rule pst_rejects_space)
  also have "\<dots> = (case after_lhs s of None \<Rightarrow> [] | Some s5 \<Rightarrow> bt rhs_rx s5)"
    by (simp only: bt_Seq_lits bt_Seq_Cls bt_Seq_skip [OF eq_rejects_digit]
          bt_Seq_skip [OF eq_rejects_space] bt_Seq_skip [OF rhs_rejects_space]
          bt_Seq_Lit lower_eq_sign after_lhs_def)
       (auto split: list.splits option.splits dest: dropWhile_Cons_not_all)
  finally show ?thesis .
qed

lemma bt_Seq_Star_Cls_Nil: "bt (Seq (Star (Cls P)) b) [] = bt b []"
  by (simp add: bt_Star_Cls_Nil regroup_None)

lemma bt_Seq_Star_Cls_Cons:
  "bt (Seq (Star (Cls P)) b) (c # cs) =
     (if P c then bt (Seq (Star (Cls P)) b) cs @ bt b (c # cs) else bt b (c # cs))"
  by (simp add: bt_Star_Cls_Cons regroup_None)

lemma bt_Eol_Eps: "bt (Seq Eol Eps) s = (if s = [] \<or> s = [LF] then [(s, None)] else [])"
  by simp

lemma bt_tail_Nil: "bt tail_rx [] = [([], None)]"
  unfolding tail_rx_def by (simp only: bt_Seq_Star_Cls_Nil bt_Eol_Eps) simp

lemma space_LF: "is_space LF"
  by (simp add: is_space_def LF_def code_def)

lemma bt_tail_Cons:
  "bt tail_rx (c # cs) =
     (if is_space c then bt tail_rx cs @ (if cs = [] \<and> c = LF then [([c], None)] else [])
      else [])"
  unfolding tail_rx_def using space_LF
  by (simp only: bt_Seq_Star_Cls_Cons bt_Eol_Eps) auto

lemma bt_tail_group: "(s', g) \<in> set (bt tail_rx s) \<Longrightarrow> g = None"
  by (induction s) (auto simp: bt_tail_Nil bt_tail_Cons simp del: bt.simps split: if_splits)

lemma bt_tail_spaces: "(s', g) \<in> set (bt tail_rx s) \<Longrightarrow> \<forall>c\<in>set s. is_space c"
  by (induction s) (auto simp: bt_tail_Nil bt_tail_Cons simp del: bt.simps split: if_splits)

lemma bt_tail_hd: "\<forall>c\<in>set s. is_space c \<Longrightarrow> \<exists>xs. bt tail_rx s = ([], None) # xs"
  by (induction s) (auto simp: bt_tail_Nil bt_tail_Cons simp del: bt.simps)

lemma letter_ci_word:
  assumes "(65 \<le> code a \<and> code a \<le> 90) \<or> (97 \<le> code a \<and> code a \<le> 122)"
    and "lower_char c = lower_char a"
  shows "is_word c"
proof -
  from assms(2) have e: "code (lower_char c) = code (lower_char a)" by simp
  from assms(1) have a: "97 \<le> code (lower_char a) \<and> code (lower_char a) \<le> 122"
    by (auto simp: code_lower_char)
  have "97 \<le> code (lower_char c) \<and> code (lower_char c) \<le> 122 \<Longrightarrow>
        (65 \<le> code c \<and> code c \<le> 90) \<or> (97 \<le> code c \<and> code c \<le> 122)"
    unfolding code_lower_char by (simp split: if_splits)
  with a e show ?thesis
    unfolding is_word_def Let_def by presburger
qed

lemma only_lits:
  "\<forall>a\<in>set w. (65 \<le> code a \<and> code a \<le> 90) \<or> (97 \<le> code a \<and> code a \<le> 122) \<Longrightarrow>
   only is_dot_word (lits w)"
  unfolding lits_def
proof (induction w)
  case Nil
  show ?case by simp
next
  case (Cons a w)
  then have "\<And>c. lower_char c = lower_char a \<Longrightarrow> is_word c"
    using letter_ci_word [of a] by simp
  with Cons show ?case by (simp add: is_dot_word_def)
qed

lemma letters_Resource:
  "\<forall>a\<in>set ''Resource''. (65 \<le> code a \<and> code a \<le> 90) \<or> (97 \<le> code a \<and> code a \<le> 122)"
  "\<forall>a\<in>set ''Face''. (65 \<le> code a \<and> code a \<le> 90) \<or> (97 \<le> code a \<and> code a \<le> 122)"
  "\<forall>a\<in>set ''Diffuse''. (65 \<le> code a \<and> code a \<le> 90) \<or> (97 \<le> code a \<and> code a \<le> 122)"
  "\<forall>a\<in>set ''NormalMap''. (65 \<le> code a \<and> code a \<le> 90) \<or> (97 \<le> code a \<and> code a \<le> 122)"
  by (simp_all add: code_def)

lemma only_resource: "only is_dot_word resource_rx"
  using letters_Resource [THEN only_lits]
  by (simp add: resource_rx_def is_dot_word_def)

lemma dot_word_not_space: "is_dot_word c \<Longrightarrow> \<not> is_space c"
proof -
  assume "is_dot_word c"
  moreover have "code CHR ''.'' = 46" by (simp add: code_def)
  ultimately have "code c = 46 \<or> is_word c"
    by (auto simp: is_dot_word_def)
  then show "\<not> is_space c"
    unfolding is_word_def is_space_def Let_def by presburger
qed

lemma takeWhile_split:
  "(\<forall>c\<in>set w. P c) \<Longrightarrow> (\<forall>c\<in>set r. \<not> P c) \<Longrightarrow> takeWhile P (w @ r) = w \<and> dropWhile P (w @ r) = r"
  by (induction w) (auto simp: takeWhile_eq_Nil_iff dropWhile_eq_self_iff neq_Nil_conv)

section \<open>The loop over the lines\<close>

lemma bt_Star_Cls_hd: "\<exists>xs. bt (Star (Cls P)) s = (dropWhile P s, None) # xs"
  by (induction s) (auto simp: bt_Star_Cls_Nil bt_Star_Cls_Cons)

lemma take_takeWhile: "take (length s - length (dropWhile P s)) s = takeWhile P s"
proof -
  have "length s - length (dropWhile P s) = length (takeWhile P s)"
    by (metis add_diff_cancel_right' length_append takeWhile_dropWhile_id)
  then show ?thesis
    by (metis append_eq_conv_conj takeWhile_dropWhile_id)
qed

lemma re_match_indent: "re_match indent_rx line = Some (Some (takeWhile is_space line))"
proof -
  obtain xs where "bt (Star (Cls is_space)) line = (dropWhile is_space line, None) # xs"
    using bt_Star_Cls_hd by blast
  then show ?thesis
    by (simp add: re_match_def indent_rx_def take_takeWhile)
qed

lemma rewrite_line_eq:
  "rewrite_line line =
     Inr (case re_match pattern (rstrip_nl line) of None \<Rightarrow> None | Some rhs \<Rightarrow> Some (new_line_of line))"
  by (simp add: rewrite_line_def re_match_indent new_line_of_def group1_def split: option.splits)

lemma scan_closed:
  "scan idx lines new_lines changed_lines =
     Inr (new_lines @ map new_line_of lines, changed_lines @ changes_from idx lines)"
proof (induction lines arbitrary: idx new_lines changed_lines)
  case Nil
  show ?case by simp
next
  case (Cons line rest)
  show ?case
  proof (cases "re_match pattern (rstrip_nl line)")
    case None
    then show ?thesis
      using Cons [of "idx + 1" "new_lines @ [line]" changed_lines]
      by (simp add: rewrite_line_eq new_line_of_def)
  next
    case (Some rhs)
    then show ?thesis
      using Cons [of "idx + 1" "new_lines @ [new_line_of line]"
          "changed_lines @ [(idx, rstrip_nl line, rstrip_nl (new_line_of line))]"]
      by (simp add: rewrite_line_eq)
  qed
qed

lemma changes_from_Nil_iff:
  "changes_from idx lines = [] \<longleftrightarrow> (\<forall>l\<in>set lines. re_match pattern (rstrip_nl l) = None)"
  by (induction lines arbitrary: idx) (auto split: option.splits)

lemma bt_Grp_mem:
  "(s1, g) \<in> set (bt (Grp a) s) \<Longrightarrow>
   \<exists>g0. (s1, g0) \<in> set (bt a s) \<and> g = Some (take (length s - length s1) s)"
  by auto

lemma bt_Seq_mem:
  "(s2, g) \<in> set (bt (Seq a b) s) \<Longrightarrow>
   \<exists>s1 g1 g2. (s1, g1) \<in> set (bt a s) \<and> (s2, g2) \<in> set (bt b s1) \<and>
     g = (case g2 of None \<Rightarrow> g1 | Some x \<Rightarrow> Some x)"
  by auto

lemma bt_rhs_mem:
  assumes "(rest, g) \<in> set (bt rhs_rx s5)"
  shows "g = Some (takeWhile (\<lambda>c. \<not> is_space c) s5) \<and>
         (\<forall>c\<in>set (takeWhile (\<lambda>c. \<not> is_space c) s5). is_dot_word c) \<and>
         (\<forall>c\<in>set (dropWhile (\<lambda>c. \<not> is_space c) s5). is_space c)"
proof -
  from assms obtain s1 g1 g2 where
    a: "(s1, g1) \<in> set (bt (Grp resource_rx) s5)" and b: "(rest, g2) \<in> set (bt tail_rx s1)"
    and g: "g = (case g2 of None \<Rightarrow> g1 | Some x \<Rightarrow> Some x)"
    unfolding rhs_rx_def by (blast dest: bt_Seq_mem)
  from b have g2: "g2 = None" and sp: "\<forall>c\<in>set s1. is_space c"
    by (auto dest: bt_tail_group bt_tail_spaces)
  from a obtain g0 where r: "(s1, g0) \<in> set (bt resource_rx s5)"
    and g1: "g1 = Some (take (length s5 - length s1) s5)"
    by (blast dest: bt_Grp_mem)
  from bt_consumes [OF only_resource r] obtain w where
    w: "s5 = w @ s1" "\<forall>c\<in>set w. is_dot_word c" by blast
  from w(2) have "\<forall>c\<in>set w. \<not> is_space c" by (blast dest: dot_word_not_space)
  with sp have "takeWhile (\<lambda>c. \<not> is_space c) (w @ s1) = w \<and> dropWhile (\<lambda>c. \<not> is_space c) (w @ s1) = s1"
    by (intro takeWhile_split) auto
  with w g g1 g2 sp show ?thesis by simp
qed

lemma re_match_pattern_Some:
  assumes "re_match pattern s = Some g"
  shows "\<exists>s5. after_lhs s = Some s5 \<and>
           g = Some (takeWhile (\<lambda>c. \<not> is_space c) s5) \<and>
           (\<forall>c\<in>set (takeWhile (\<lambda>c. \<not> is_space c) s5). is_dot_word c) \<and>
           (\<forall>c\<in>set (dropWhile (\<lambda>c. \<not> is_space c) s5). is_space c)"
proof -
  from assms obtain rest xs where "bt pattern s = (rest, g) # xs"
    by (auto simp: re_match_def split: list.splits)
  then have m: "(rest, g) \<in> set (bt pattern s)" by simp
  show ?thesis
  proof (cases "after_lhs s")
    case None
    with m show ?thesis by (simp add: bt_pattern)
  next
    case (Some s5)
    with m have "(rest, g) \<in> set (bt rhs_rx s5)" by (simp add: bt_pattern)
    with Some bt_rhs_mem show ?thesis by blast
  qed
qed

lemma strip_ci_Some: "strip_ci w s = Some r \<Longrightarrow> \<exists>k. s = k @ r \<and> lower k = lower w"
  by (auto simp: strip_ci_def split: if_splits) (metis append_take_drop_id)

lemma after_lhs_decomp:
  assumes "after_lhs s = Some s5"
  shows "\<exists>k d ds ws1 ws2. s = takeWhile is_space s @ k @ d # ds @ ws1 @ CHR ''='' # ws2 @ s5 \<and>
           lower k = ''ps-t'' \<and> is_digit d \<and> (\<forall>c\<in>set ds. is_digit c) \<and>
           (\<forall>c\<in>set ws1. is_space c) \<and> (\<forall>c\<in>set ws2. is_space c)"
proof -
  from assms obtain s1 where s1: "strip_ci ''ps-t'' (dropWhile is_space s) = Some s1"
    by (auto simp: after_lhs_def split: option.splits)
  then obtain k where k: "dropWhile is_space s = k @ s1" "lower k = ''ps-t''"
    by (auto dest: strip_ci_Some simp: lower_pst)
  from assms s1 obtain d s2 where d: "s1 = d # s2" "is_digit d"
    by (auto simp: after_lhs_def split: list.splits if_splits)
  from assms s1 d obtain s4 where
    s4: "dropWhile is_space (dropWhile is_digit s2) = CHR ''='' # s4" "s5 = dropWhile is_space s4"
    by (auto simp: after_lhs_def split: list.splits if_splits)
  have "s = takeWhile is_space s @ k @ d # takeWhile is_digit s2 @
      takeWhile is_space (dropWhile is_digit s2) @ CHR ''='' # takeWhile is_space s4 @ s5"
    using k d s4
    by (metis takeWhile_dropWhile_id)
  moreover have "\<forall>c\<in>set (takeWhile is_digit s2). is_digit c"
    "\<forall>c\<in>set (takeWhile is_space (dropWhile is_digit s2)). is_space c"
    "\<forall>c\<in>set (takeWhile is_space s4). is_space c"
    by (auto dest: set_takeWhileD)
  ultimately show ?thesis using k(2) d(2) by blast
qed

lemma linebreak_CR: "is_linebreak CR"
  by (simp add: is_linebreak_def CR_def code_def)

lemma linebreak_LF: "is_linebreak LF"
  by (simp add: is_linebreak_def LF_def code_def)

lemma CR_neq_LF: "CR \<noteq> LF"
  by (simp add: CR_def LF_def)

lemma linebreak_space: "is_linebreak c \<Longrightarrow> is_space c"
  unfolding is_linebreak_def is_space_def Let_def by presburger

lemma universal_newlines_no_CR: "CR \<notin> set (universal_newlines t)"
  using CR_neq_LF by (induction t rule: universal_newlines.induct) auto

lemma universal_newlines_id: "CR \<notin> set t \<Longrightarrow> universal_newlines t = t"
  by (induction t rule: universal_newlines.induct) auto

lemma universal_newlines_write:
  "CR \<notin> set t \<Longrightarrow> universal_newlines (write_newlines win t) = t"
proof (cases win)
  case False
  assume "CR \<notin> set t"
  with False show ?thesis by (simp add: write_newlines_def universal_newlines_id)
next
  case True
  assume "CR \<notin> set t"
  then have "universal_newlines (concat (map (\<lambda>c. if c = LF then [CR, LF] else [c]) t)) = t"
  proof (induction t)
    case Nil
    show ?case by simp
  next
    case (Cons c t)
    then have ih: "universal_newlines (concat (map (\<lambda>c. if c = LF then [CR, LF] else [c]) t)) = t"
      and c: "c \<noteq> CR" by auto
    show ?case
    proof (cases "c = LF")
      case True
      with ih show ?thesis by simp
    next
      case False
      with c ih show ?thesis
        by (cases "concat (map (\<lambda>c. if c = LF then [CR, LF] else [c]) t)") auto
    qed
  qed
  with True show ?thesis by (simp add: write_newlines_def)
qed

declare splitlines.simps(2) [simp del]

lemma splitlines_CRLF: "splitlines (CR # LF # cs) = [CR, LF] # splitlines cs"
  by (simp add: splitlines.simps(2))

lemma splitlines_break:
  "is_linebreak c \<Longrightarrow> c \<noteq> CR \<or> cs = [] \<or> hd cs \<noteq> LF \<Longrightarrow> splitlines (c # cs) = [c] # splitlines cs"
  by (cases cs) (auto simp: splitlines.simps(2))

lemma splitlines_char:
  "\<not> is_linebreak c \<Longrightarrow>
   splitlines (c # cs) = (case splitlines cs of [] \<Rightarrow> [[c]] | l # ls \<Rightarrow> (c # l) # ls)"
  using linebreak_CR by (auto simp: splitlines.simps(2))

lemma concat_splitlines: "concat (splitlines s) = s"
proof (induction s rule: splitlines.induct)
  case 1
  show ?case by simp
next
  case (2 c cs)
  show ?case
  proof (cases "c = CR \<and> (case cs of [] \<Rightarrow> False | d # _ \<Rightarrow> d = LF)")
    case True
    then obtain ds where cs: "cs = LF # ds" by (auto split: list.splits)
    with True "2.IH"(1) have "concat (splitlines ds) = ds" by simp
    with True cs show ?thesis by (simp add: splitlines_CRLF)
  next
    case False
    show ?thesis
    proof (cases "is_linebreak c")
      case True
      with False "2.IH"(2) have ih: "concat (splitlines cs) = cs" by simp
      from False have "c \<noteq> CR \<or> cs = [] \<or> hd cs \<noteq> LF" by (cases cs) auto
      with True ih show ?thesis by (simp add: splitlines_break)
    next
      case nb: False
      with False "2.IH"(3) have ih: "concat (splitlines cs) = cs" by simp
      show ?thesis
      proof (cases "splitlines cs")
        case Nil
        with ih nb show ?thesis by (simp add: splitlines_char)
      next
        case (Cons l ls)
        with ih nb show ?thesis by (simp add: splitlines_char)
      qed
    qed
  qed
qed

lemma splitlines_body:
  "\<forall>c\<in>set b. \<not> is_linebreak c \<Longrightarrow> is_linebreak t \<Longrightarrow> t \<noteq> CR \<Longrightarrow>
   splitlines (b @ t # rest) = (b @ [t]) # splitlines rest"
  by (induction b) (simp_all add: splitlines_break splitlines_char)

lemma splitlines_last:
  "b \<noteq> [] \<Longrightarrow> \<forall>c\<in>set b. \<not> is_linebreak c \<Longrightarrow> splitlines b = [b]"
proof (induction b)
  case Nil
  then show ?case by simp
next
  case (Cons c b)
  then show ?case by (cases b) (simp_all add: splitlines_char)
qed

lemma splitlines_line:
  assumes "l \<noteq> []" "CR \<notin> set l" "\<forall>c\<in>set (butlast l). \<not> is_linebreak c"
  shows "is_linebreak (last l) \<Longrightarrow> splitlines (l @ rest) = l # splitlines rest"
    and "\<not> is_linebreak (last l) \<Longrightarrow> splitlines l = [l]"
proof -
  from assms(1) have l: "l = butlast l @ [last l]" by simp
  from assms(1,2) have "last l \<noteq> CR" by (metis last_in_set)
  then show "is_linebreak (last l) \<Longrightarrow> splitlines (l @ rest) = l # splitlines rest"
    using splitlines_body [OF assms(3), of "last l" rest] l
    by (metis append.assoc append_Cons append_Nil)
  assume "\<not> is_linebreak (last l)"
  with assms(3) l have "\<forall>c\<in>set l. \<not> is_linebreak c"
    by (metis Un_iff empty_iff empty_set insert_iff list.simps(15) set_append)
  with assms(1) show "splitlines l = [l]" by (rule splitlines_last)
qed

lemma resplit: "wf_lines ls \<Longrightarrow> splitlines (concat ls) = ls"
proof (induction ls)
  case Nil
  show ?case by simp
next
  case (Cons l ls)
  then have l: "l \<noteq> []" "CR \<notin> set l" "\<forall>c\<in>set (butlast l). \<not> is_linebreak c"
    and ih: "splitlines (concat ls) = ls" by auto
  show ?case
  proof (cases "is_linebreak (last l)")
    case True
    with splitlines_line(1) [OF l] ih show ?thesis by simp
  next
    case False
    with Cons.prems have "ls = []" by auto
    with splitlines_line(2) [OF l False] show ?thesis by simp
  qed
qed

lemma wf_splitlines: "CR \<notin> set s \<Longrightarrow> wf_lines (splitlines s)"
proof (induction s)
  case Nil
  show ?case by simp
next
  case (Cons c cs)
  then have c: "c \<noteq> CR" and ih: "wf_lines (splitlines cs)" by auto
  show ?case
  proof (cases "is_linebreak c")
    case True
    with c ih show ?thesis by (simp add: splitlines_break)
  next
    case False
    show ?thesis
    proof (cases "splitlines cs")
      case Nil
      with c False show ?thesis by (simp add: splitlines_char)
    next
      case (Cons l ls)
      with ih have "l \<noteq> []" by simp
      with Cons ih c False show ?thesis by (simp add: splitlines_char)
    qed
  qed
qed

lemma rstrip_nl_Cons:
  "rstrip_nl (c # s) = (if c = LF \<and> rstrip_nl s = [] then [] else c # rstrip_nl s)"
  by (auto simp: rstrip_nl_def dropWhile_append dropWhile_eq_Nil_conv)

lemma rstrip_nl_Nil: "rstrip_nl [] = []"
  by (simp add: rstrip_nl_def)

lemma rstrip_nl_decomp: "\<exists>n. l = rstrip_nl l @ n \<and> (\<forall>c\<in>set n. c = LF)"
proof -
  have "rev l = takeWhile (\<lambda>c. c = LF) (rev l) @ dropWhile (\<lambda>c. c = LF) (rev l)" by simp
  then have "l = rev (dropWhile (\<lambda>c. c = LF) (rev l)) @ rev (takeWhile (\<lambda>c. c = LF) (rev l))"
    by (metis rev_append rev_rev_ident)
  moreover have "\<forall>c\<in>set (rev (takeWhile (\<lambda>c. c = LF) (rev l))). c = LF"
    by (auto dest: set_takeWhileD)
  ultimately show ?thesis unfolding rstrip_nl_def by blast
qed

lemma rstrip_nl_prefix:
  "c \<noteq> LF \<Longrightarrow> rstrip_nl (a @ c # s) = a @ c # rstrip_nl s"
  by (induction a) (simp_all add: rstrip_nl_Cons)

lemma rstrip_nl_snoc: "rstrip_nl (s @ [LF]) = rstrip_nl s"
  by (simp add: rstrip_nl_def)

lemma rstrip_nl_id: "\<forall>c\<in>set s. c \<noteq> LF \<Longrightarrow> rstrip_nl s = s"
  by (induction s) (simp_all add: rstrip_nl_Nil rstrip_nl_Cons)

lemma lower_char_t: "lower_char CHR ''t'' \<noteq> CHR ''p''"
  by code_simp

lemma not_space_t: "\<not> is_space CHR ''t''"
  by code_simp

lemma re_match_None: "after_lhs s = None \<Longrightarrow> re_match pattern s = None"
  by (simp add: re_match_def bt_pattern)

lemma this_no_match:
  assumes "\<forall>c\<in>set ind. is_space c"
  shows "re_match pattern (rstrip_nl (ind @ ''this = '' @ rhs @ [LF])) = None"
proof -
  have "rstrip_nl (ind @ ''this = '' @ rhs @ [LF]) = ind @ CHR ''t'' # rstrip_nl (''his = '' @ rhs @ [LF])"
    using rstrip_nl_prefix [of "CHR ''t''" ind "''his = '' @ rhs @ [LF]"]
    by (simp add: LF_def)
  moreover have "dropWhile is_space (ind @ CHR ''t'' # x) = CHR ''t'' # x" for x
    using assms not_space_t by (simp add: dropWhile_append)
  moreover have "strip_ci ''ps-t'' (CHR ''t'' # x) = None" for x
    using lower_char_t by (simp add: strip_ci_Cons lower_char_r)
  ultimately have "after_lhs (rstrip_nl (ind @ ''this = '' @ rhs @ [LF])) = None"
    by (simp add: after_lhs_def)
  then show ?thesis by (rule re_match_None)
qed

lemma no_rematch: "re_match pattern (rstrip_nl (new_line_of l)) = None"
proof (cases "re_match pattern (rstrip_nl l)")
  case None
  then show ?thesis by (simp add: new_line_of_def)
next
  case (Some g)
  have "\<forall>c\<in>set (takeWhile is_space l). is_space c" by (auto dest: set_takeWhileD)
  from this_no_match [OF this] Some show ?thesis by (simp add: new_line_of_def)
qed

lemma new_line_of_idem: "new_line_of (new_line_of l) = new_line_of l"
  using no_rematch [of l] by (simp add: new_line_of_def [of "new_line_of l"])

lemma changes_from_rewritten: "changes_from idx (map new_line_of ls) = []"
  by (simp add: changes_from_Nil_iff no_rematch)

lemma bt_suffix: "(s', g) \<in> set (bt r s) \<Longrightarrow> \<exists>w. s = w @ s'"
proof -
  have "only (\<lambda>c. True) r" by (induction r) auto
  from bt_consumes [OF this] show "(s', g) \<in> set (bt r s) \<Longrightarrow> \<exists>w. s = w @ s'" by blast
qed

lemma bt_resource_prefix:
  assumes "(s1, g0) \<in> set (bt resource_rx s5)"
  shows "\<exists>k w'. s5 = k @ w' @ s1 \<and> lower k = ''resource''"
proof -
  define rest where "rest = seqs [Star (Cls is_word), lits ''Face'',
      Star (Cls is_word), Alt (lits ''Diffuse'') (lits ''NormalMap''), Opt (Star (Cls is_dot_word))]"
  have r: "resource_rx = Seq (lits ''Resource'') rest"
    by (simp add: resource_rx_def rest_def)
  from assms obtain s' where s': "strip_ci ''Resource'' s5 = Some s'" and m: "(s1, g0) \<in> set (bt rest s')"
    unfolding r bt_Seq_lits by (cases "strip_ci ''Resource'' s5") auto
  from s' obtain k where k: "s5 = k @ s'" "lower k = ''resource''"
    by (auto dest: strip_ci_Some simp: lower_Resource)
  from m obtain w' where "s' = w' @ s1" by (blast dest: bt_suffix)
  with k show ?thesis by blast
qed

lemma bt_rhs_resource:
  assumes "(rest, g) \<in> set (bt rhs_rx s5)"
  shows "\<exists>k w'. takeWhile (\<lambda>c. \<not> is_space c) s5 = k @ w' \<and> lower k = ''resource''"
proof -
  from assms obtain s1 g1 g2 where
    a: "(s1, g1) \<in> set (bt (Grp resource_rx) s5)" and b: "(rest, g2) \<in> set (bt tail_rx s1)"
    unfolding rhs_rx_def by (blast dest: bt_Seq_mem)
  from b have sp: "\<forall>c\<in>set s1. is_space c" by (auto dest: bt_tail_spaces)
  from a obtain g0 where r: "(s1, g0) \<in> set (bt resource_rx s5)" by (blast dest: bt_Grp_mem)
  from bt_consumes [OF only_resource r] obtain w where
    w: "s5 = w @ s1" "\<forall>c\<in>set w. is_dot_word c" by blast
  from w(2) have "\<forall>c\<in>set w. \<not> is_space c" by (blast dest: dot_word_not_space)
  with sp have "takeWhile (\<lambda>c. \<not> is_space c) (w @ s1) = w \<and> dropWhile (\<lambda>c. \<not> is_space c) (w @ s1) = s1"
    by (intro takeWhile_split) auto
  with w(1) have t: "takeWhile (\<lambda>c. \<not> is_space c) s5 = w" by simp
  from bt_resource_prefix [OF r] obtain k w' where k: "s5 = k @ w' @ s1" "lower k = ''resource''"
    by blast
  with w(1) have "w = k @ w'" by simp
  with t have "takeWhile (\<lambda>c. \<not> is_space c) s5 = k @ w'" by simp
  with k(2) show ?thesis by blast
qed

lemma re_match_mem:
  assumes "re_match pattern s = Some g"
  shows "\<exists>rest s5. after_lhs s = Some s5 \<and> (rest, g) \<in> set (bt rhs_rx s5)"
proof (cases "after_lhs s")
  case None
  then have "bt pattern s = []" by (simp add: bt_pattern)
  with assms show ?thesis by (simp add: re_match_def)
next
  case (Some s5)
  then have e: "bt pattern s = bt rhs_rx s5" by (simp add: bt_pattern)
  show ?thesis
  proof (cases "bt rhs_rx s5")
    case Nil
    with e assms show ?thesis by (simp add: re_match_def)
  next
    case (Cons x xs)
    obtain rest g' where x: "x = (rest, g')" by (cases x)
    with Cons e assms have "g' = g" by (simp add: re_match_def)
    with Cons x have "(rest, g) \<in> set (bt rhs_rx s5)" by simp
    with Some show ?thesis by blast
  qed
qed

lemma re_match_pattern_resource:
  assumes "re_match pattern s = Some g"
  shows "\<exists>k w'. g = Some (k @ w') \<and> lower k = ''resource''"
proof -
  from re_match_mem [OF assms] obtain rest s5 where r: "(rest, g) \<in> set (bt rhs_rx s5)"
    by blast
  from bt_rhs_mem [OF r] have g: "g = Some (takeWhile (\<lambda>c. \<not> is_space c) s5)" by (rule conjunct1)
  from bt_rhs_resource [OF r] obtain k w' where
    kw: "takeWhile (\<lambda>c. \<not> is_space c) s5 = k @ w'" "lower k = ''resource''" by blast
  have "g = Some (k @ w') \<and> lower k = ''resource''"
    unfolding g kw(1) using kw(2) by simp
  then show ?thesis by (intro exI)
qed

lemma lower_pst_hd: "lower k = ''ps-t'' \<Longrightarrow> \<exists>k1 k'. k = k1 # k' \<and> \<not> is_space k1"
proof (cases k)
  case Nil
  assume "lower k = ''ps-t''"
  with Nil show ?thesis by (simp add: lower_def)
next
  case (Cons k1 k')
  assume "lower k = ''ps-t''"
  with Cons have "lower_char k1 = CHR ''p''" by (simp add: lower_def)
  then have "\<not> is_space k1" using space_not_p by blast
  with Cons show ?thesis by blast
qed


lemma takeWhile_stop: "\<forall>c\<in>set a. P c \<Longrightarrow> \<not> P x \<Longrightarrow> takeWhile P (a @ x # b) = a"
  by (induction a) auto

text \<open>The shape of a line that matches, and of the line written for it.\<close>

lemma matched_line:
  assumes "re_match pattern (rstrip_nl l) = Some g"
  shows "\<exists>k d ds ws1 ws2 rhs trail.
           g = Some rhs \<and>
           l = takeWhile is_space l @ k @ d # ds @ ws1 @ CHR ''='' # ws2 @ rhs @ trail \<and>
           lower k = ''ps-t'' \<and> is_digit d \<and> (\<forall>c\<in>set ds. is_digit c) \<and>
           (\<forall>c\<in>set ws1. is_space c) \<and> (\<forall>c\<in>set ws2. is_space c) \<and>
           (\<forall>c\<in>set rhs. is_dot_word c) \<and> (\<forall>c\<in>set trail. is_space c) \<and>
           new_line_of l = takeWhile is_space l @ ''this = '' @ rhs @ [LF]"
proof -
  define s where "s = rstrip_nl l"
  from re_match_pattern_Some [OF assms] obtain s5 where
    s5: "after_lhs s = Some s5" and g: "g = Some (takeWhile (\<lambda>c. \<not> is_space c) s5)"
    and dw: "\<forall>c\<in>set (takeWhile (\<lambda>c. \<not> is_space c) s5). is_dot_word c"
    and sp: "\<forall>c\<in>set (dropWhile (\<lambda>c. \<not> is_space c) s5). is_space c"
    unfolding s_def by blast
  from after_lhs_decomp [OF s5] obtain k d ds ws1 ws2 where
    dec: "s = takeWhile is_space s @ k @ d # ds @ ws1 @ CHR ''='' # ws2 @ s5"
    and k: "lower k = ''ps-t''" and d: "is_digit d" "\<forall>c\<in>set ds. is_digit c"
    and ws: "\<forall>c\<in>set ws1. is_space c" "\<forall>c\<in>set ws2. is_space c"
    by blast
  from rstrip_nl_decomp [of l] obtain n where n: "l = s @ n" "\<forall>c\<in>set n. c = LF"
    unfolding s_def by blast
  from lower_pst_hd [OF k] obtain k1 k' where k1: "k = k1 # k'" "\<not> is_space k1" by blast
  define ind where "ind = takeWhile is_space s"
  have ind: "\<forall>c\<in>set ind. is_space c" unfolding ind_def by (auto dest: set_takeWhileD)
  define rhs where "rhs = takeWhile (\<lambda>c. \<not> is_space c) s5"
  define trail where "trail = dropWhile (\<lambda>c. \<not> is_space c) s5 @ n"
  have s5_split: "s5 = rhs @ dropWhile (\<lambda>c. \<not> is_space c) s5"
    unfolding rhs_def by simp
  have "l = (ind @ k @ d # ds @ ws1 @ CHR ''='' # ws2 @ s5) @ n"
    using dec n(1) unfolding ind_def by simp
  also have "\<dots> = ind @ k @ d # ds @ ws1 @ CHR ''='' # ws2 @ rhs @ trail"
    unfolding trail_def by (subst s5_split) simp
  finally have l: "l = ind @ k @ d # ds @ ws1 @ CHR ''='' # ws2 @ rhs @ trail" .
  then have "l = ind @ k1 # (k' @ d # ds @ ws1 @ CHR ''='' # ws2 @ rhs @ trail)"
    using k1(1) by simp
  then have "takeWhile is_space l = takeWhile is_space (ind @ k1 # (k' @ d # ds @ ws1 @ CHR ''='' # ws2 @ rhs @ trail))"
    by simp
  also have "\<dots> = ind"
    using ind k1(2) by (rule takeWhile_stop)
  finally have tw: "takeWhile is_space l = ind" .
  have nsp: "\<forall>c\<in>set n. is_space c"
  proof
    fix c assume "c \<in> set n"
    with n(2) have "c = LF" by blast
    then show "is_space c" using space_LF by blast
  qed
  have tr: "\<forall>c\<in>set trail. is_space c"
  proof
    fix c assume "c \<in> set trail"
    then have "c \<in> set (dropWhile (\<lambda>c. \<not> is_space c) s5) \<or> c \<in> set n"
      unfolding trail_def by simp
    with sp nsp show "is_space c" by blast
  qed
  have g': "g = Some rhs" unfolding rhs_def by (rule g)
  have dw': "\<forall>c\<in>set rhs. is_dot_word c" unfolding rhs_def by (rule dw)
  have m: "re_match pattern (rstrip_nl l) = Some (Some rhs)"
    unfolding g' [symmetric] by (rule assms)
  have nl: "new_line_of l = takeWhile is_space l @ ''this = '' @ rhs @ [LF]"
    unfolding new_line_of_def m by (simp add: group1_def)
  have l': "l = takeWhile is_space l @ k @ d # ds @ ws1 @ CHR ''='' # ws2 @ rhs @ trail"
    unfolding tw by (rule l)
  from g' l' k d ws dw' tr nl show ?thesis
    by (intro exI conjI)
qed

lemma this_chars: "\<forall>c\<in>set ''this = ''. \<not> is_linebreak c \<and> c \<noteq> CR"
  by code_simp

lemma space_CR: "is_space CR"
  using linebreak_CR by (rule linebreak_space)

lemma dot_word_plain: "is_dot_word c \<Longrightarrow> \<not> is_linebreak c \<and> c \<noteq> CR"
  using dot_word_not_space linebreak_space space_CR by blast

lemma butlast_prefix: "r \<noteq> [] \<Longrightarrow> set a \<subseteq> set (butlast (a @ r))"
  by (simp add: butlast_append)

lemma wf_new_line:
  assumes "l \<noteq> []" "CR \<notin> set l" "\<forall>c\<in>set (butlast l). \<not> is_linebreak c"
  shows "new_line_of l \<noteq> [] \<and> CR \<notin> set (new_line_of l) \<and>
         (\<forall>c\<in>set (butlast (new_line_of l)). \<not> is_linebreak c) \<and>
         (is_linebreak (last l) \<longrightarrow> is_linebreak (last (new_line_of l)))"
proof (cases "re_match pattern (rstrip_nl l)")
  case None
  then have "new_line_of l = l" by (simp add: new_line_of_def)
  with assms show ?thesis by simp
next
  case (Some g)
  from matched_line [OF Some] obtain k d ds ws1 ws2 rhs trail where
    l: "l = takeWhile is_space l @ k @ d # ds @ ws1 @ CHR ''='' # ws2 @ rhs @ trail"
    and rhs: "\<forall>c\<in>set rhs. is_dot_word c"
    and nl: "new_line_of l = takeWhile is_space l @ ''this = '' @ rhs @ [LF]"
    by blast
  define ind where "ind = takeWhile is_space l"
  define r where "r = k @ d # ds @ ws1 @ CHR ''='' # ws2 @ rhs @ trail"
  have r: "r \<noteq> []" unfolding r_def by simp
  have lr: "l = ind @ r" unfolding ind_def r_def by (rule l)
  have "set ind \<subseteq> set (butlast (ind @ r))" using r by (rule butlast_prefix)
  then have ib: "set ind \<subseteq> set (butlast l)" using lr by simp
  have il: "set ind \<subseteq> set l" unfolding ind_def by (auto dest: set_takeWhileD)
  have n: "new_line_of l = (ind @ ''this = '' @ rhs) @ [LF]"
    unfolding ind_def using nl by simp
  have i1: "\<forall>c\<in>set ind. \<not> is_linebreak c \<and> c \<noteq> CR"
    using ib il assms(2,3) by blast
  have i2: "\<forall>c\<in>set rhs. \<not> is_linebreak c \<and> c \<noteq> CR"
    using rhs dot_word_plain by blast
  have body: "\<forall>c\<in>set (ind @ ''this = '' @ rhs). \<not> is_linebreak c \<and> c \<noteq> CR"
  proof
    fix c assume "c \<in> set (ind @ ''this = '' @ rhs)"
    then have "c \<in> set ind \<or> c \<in> set ''this = '' \<or> c \<in> set rhs"
      by (simp only: set_append Un_iff)
    with i1 i2 this_chars show "\<not> is_linebreak c \<and> c \<noteq> CR" by blast
  qed
  have "new_line_of l \<noteq> []" unfolding n by simp
  moreover have "CR \<notin> set (new_line_of l)"
    unfolding n using body CR_neq_LF by auto
  moreover have "\<forall>c\<in>set (butlast (new_line_of l)). \<not> is_linebreak c"
    unfolding n butlast_snoc using body by blast
  moreover have "is_linebreak (last (new_line_of l))"
    unfolding n last_snoc by (rule linebreak_LF)
  ultimately show ?thesis by blast
qed

lemma wf_map_new_line: "wf_lines ls \<Longrightarrow> wf_lines (map new_line_of ls)"
proof (induction ls)
  case Nil
  show ?case by simp
next
  case (Cons l ls)
  then have a: "l \<noteq> []" "CR \<notin> set l" "\<forall>c\<in>set (butlast l). \<not> is_linebreak c"
    and b: "ls \<noteq> [] \<longrightarrow> is_linebreak (last l)" and ih: "wf_lines (map new_line_of ls)"
    by auto
  from wf_new_line [OF a] b ih show ?case by simp
qed

lemma wf_no_CR: "wf_lines ls \<Longrightarrow> CR \<notin> set (concat ls)"
  by (induction ls) auto

lemma rewritten_lines:
  assumes "CR \<notin> set content"
  shows "splitlines (concat (map new_line_of (splitlines content))) = map new_line_of (splitlines content)"
    and "CR \<notin> set (concat (map new_line_of (splitlines content)))"
proof -
  from assms have "wf_lines (map new_line_of (splitlines content))"
    by (intro wf_map_new_line wf_splitlines)
  then show "splitlines (concat (map new_line_of (splitlines content))) = map new_line_of (splitlines content)"
    and "CR \<notin> set (concat (map new_line_of (splitlines content)))"
    by (rule resplit, rule wf_no_CR)
qed

lemma read_text_snd: "snd (read_text p w) = w\<lparr>calls := calls w @ [Read_text p]\<rparr>"
  by (simp add: read_text_def Let_def split: option.splits disk_file.splits)

lemma read_text_fst:
  "fst (read_text p w) =
     (case files w p of
        None \<Rightarrow> Inl FileNotFoundError
      | Some f \<Rightarrow>
          if no_read w p then Inl PermissionError
          else (case f of Garbled b \<Rightarrow> Inl UnicodeDecodeError | Text t \<Rightarrow> Inr (universal_newlines t)))"
  by (simp add: read_text_def Let_def split: option.splits disk_file.splits)

lemma read_text_Inr:
  assumes "fst (read_text p w) = Inr content"
  shows "\<exists>t. files w p = Some (Text t) \<and> \<not> no_read w p \<and> content = universal_newlines t"
  using assms unfolding read_text_fst
  by (auto split: option.splits disk_file.splits if_splits)

lemma smart_replace_try_read_fail:
  "fst (read_text p w) = Inl e \<Longrightarrow>
   smart_replace_try p mb pv ap pd w = (Inl e, snd (read_text p w))"
  by (cases "read_text p w") (simp add: smart_replace_try_def)

lemma smart_replace_try_read_ok:
  "fst (read_text p w) = Inr content \<Longrightarrow>
   smart_replace_try p mb pv ap pd w =
     (if py_in ''DISABLED'' content \<and> \<not> pd then (Inr (False, []), snd (read_text p w))
      else if changes_from 1 (splitlines content) = [] then (Inr (False, []), snd (read_text p w))
      else after_scan p mb pv ap (map new_line_of (splitlines content))
             (changes_from 1 (splitlines content)) (snd (read_text p w)))"
  by (cases "read_text p w") (simp add: smart_replace_try_def scan_closed after_scan_def)

lemma print_msg_fields:
  "files (print_msg m w) = files w" "no_read (print_msg m w) = no_read w"
  "no_write (print_msg m w) = no_write w" "crlf (print_msg m w) = crlf w"
  "calls (print_msg m w) = calls w" "console (print_msg m w) = console w @ [m]"
  by (simp_all add: print_msg_def)

lemma fold_preserve: "(\<And>x v. P (f x v) = P v) \<Longrightarrow> P (fold f xs w) = P w"
  by (induction xs arbitrary: w) simp_all

lemma print_line_fields:
  "files ((\<lambda>(idx, old, new). print_msg (Preview_line idx old new)) x v) = files v"
  "no_read ((\<lambda>(idx, old, new). print_msg (Preview_line idx old new)) x v) = no_read v"
  "no_write ((\<lambda>(idx, old, new). print_msg (Preview_line idx old new)) x v) = no_write v"
  "crlf ((\<lambda>(idx, old, new). print_msg (Preview_line idx old new)) x v) = crlf v"
  "calls ((\<lambda>(idx, old, new). print_msg (Preview_line idx old new)) x v) = calls v"
  by (simp_all add: split_def print_msg_fields)

lemma print_preview_fields:
  "files (print_preview p ch w) = files w" "no_read (print_preview p ch w) = no_read w"
  "no_write (print_preview p ch w) = no_write w" "crlf (print_preview p ch w) = crlf w"
  "calls (print_preview p ch w) = calls w"
  unfolding print_preview_def
  by (simp_all only: fold_preserve [of files, OF print_line_fields(1)]
        fold_preserve [of no_read, OF print_line_fields(2)]
        fold_preserve [of no_write, OF print_line_fields(3)]
        fold_preserve [of crlf, OF print_line_fields(4)]
        fold_preserve [of calls, OF print_line_fields(5)] print_msg_fields)

lemma write_lines_Inr:
  assumes "write_lines p ls w = (Inr u, w')"
  shows "\<not> no_write w p" "files w' = (files w)(p \<mapsto> Text (write_newlines (crlf w) (concat ls)))"
    "no_read w' = no_read w" "no_write w' = no_write w" "crlf w' = crlf w"
    "calls w' = calls w @ [Write_text p]" "console w' = console w"
  using assms by (auto simp: write_lines_def Let_def split: if_splits)

lemma write_lines_Inl:
  assumes "write_lines p ls w = (Inl e, w')"
  shows "no_write w p" "files w' = files w" "calls w' = calls w @ [Write_text p]"
  using assms by (auto simp: write_lines_def Let_def split: if_splits)

lemma copyfile_Inr:
  assumes "copyfile src dst w = (Inr u, w')"
  shows "src \<noteq> dst" "\<exists>f. files w src = Some f \<and> files w' = (files w)(dst \<mapsto> f)"
    "no_read w' = no_read w" "no_write w' = no_write w" "crlf w' = crlf w"
    "calls w' = calls w @ [Copy src dst]" "console w' = console w"
    "\<not> no_read w src" "\<not> no_write w dst"
  using assms by (auto simp: copyfile_def Let_def split: if_splits option.splits)

lemma copyfile_Inl:
  assumes "copyfile src dst w = (Inl e, w')"
  shows "files w' = files w" "calls w' = calls w @ [Copy src dst]"
  using assms by (auto simp: copyfile_def Let_def split: if_splits option.splits)

lemma make_backup_file_Inr:
  assumes "make_backup_file p w = (Inr u, w')"
  shows "p \<noteq> backup_path p"
    "\<exists>f. files w p = Some f \<and> files w' = (files w)(backup_path p \<mapsto> f)"
    "no_read w' = no_read w" "no_write w' = no_write w" "crlf w' = crlf w"
    "calls w' = calls w @ [Copy p (backup_path p)]"
proof -
  obtain r v where c: "copyfile p (backup_path p) w = (r, v)" by (cases "copyfile p (backup_path p) w")
  with assms obtain u' where r: "r = Inr u'" and w': "w' = print_msg (Backup_saved (backup_path p)) v"
    by (cases r) (auto simp: make_backup_file_def)
  note f = copyfile_Inr [OF c [unfolded r]]
  show "p \<noteq> backup_path p" by (rule f(1))
  show "\<exists>f. files w p = Some f \<and> files w' = (files w)(backup_path p \<mapsto> f)"
    using f(2) by (simp add: w' print_msg_fields)
  show "no_read w' = no_read w" "no_write w' = no_write w" "crlf w' = crlf w"
    "calls w' = calls w @ [Copy p (backup_path p)]"
    using f(3,4,5,6) by (simp_all add: w' print_msg_fields)
qed

lemma make_backup_file_Inl:
  assumes "make_backup_file p w = (Inl e, w')"
  shows "files w' = files w" "calls w' = calls w @ [Copy p (backup_path p)]"
proof -
  obtain r v where c: "copyfile p (backup_path p) w = (r, v)" by (cases "copyfile p (backup_path p) w")
  with assms have r: "r = Inl e" and w': "w' = v"
    by (cases r; simp add: make_backup_file_def)+
  from copyfile_Inl [OF c [unfolded r]] show "files w' = files w"
    "calls w' = calls w @ [Copy p (backup_path p)]"
    by (simp_all add: w')
qed

lemma after_scan_dry:
  "after_scan p mb pv False nl ch w1 =
     (Inr (True, ch), if pv then print_preview p ch w1 else w1)"
  by (simp add: after_scan_def)

lemma after_scan_apply_plain:
  assumes "after_scan p False pv True nl ch w1 = (Inr r, w')"
  shows "r = (True, ch)"
    "files w' = (files w1)(p \<mapsto> Text (write_newlines (crlf w1) (concat nl)))"
    "no_read w' = no_read w1" "crlf w' = crlf w1" "calls w' = calls w1 @ [Write_text p]"
proof -
  define w2 where "w2 = (if pv then print_preview p ch w1 else w1)"
  have f2: "files w2 = files w1" "no_read w2 = no_read w1" "crlf w2 = crlf w1" "calls w2 = calls w1"
    unfolding w2_def by (simp_all add: print_preview_fields)
  obtain x v where wl: "write_lines p nl w2 = (x, v)" by (cases "write_lines p nl w2")
  from assms have a: "(case x of Inl e \<Rightarrow> (Inl e, v) | Inr u \<Rightarrow> (Inr (True, ch), v)) = (Inr r, w')"
    unfolding after_scan_def w2_def [symmetric] by (simp add: wl)
  then obtain u where x: "x = Inr u" and r: "r = (True, ch)" and w': "w' = v"
    by (cases x) auto
  note f = write_lines_Inr [OF wl [unfolded x]]
  show "r = (True, ch)" by (rule r)
  show "files w' = (files w1)(p \<mapsto> Text (write_newlines (crlf w1) (concat nl)))"
    "no_read w' = no_read w1" "crlf w' = crlf w1" "calls w' = calls w1 @ [Write_text p]"
    using f(2,3,5,6) f2 by (simp_all add: w')
qed

lemma after_scan_apply_backup:
  assumes "after_scan p True pv True nl ch w1 = (Inr r, w')"
  shows "r = (True, ch)" "p \<noteq> backup_path p"
    "\<exists>f. files w1 p = Some f \<and>
       files w' = (files w1)(backup_path p \<mapsto> f, p \<mapsto> Text (write_newlines (crlf w1) (concat nl)))"
    "no_read w' = no_read w1" "crlf w' = crlf w1"
    "calls w' = calls w1 @ [Copy p (backup_path p), Write_text p]"
proof -
  define w2 where "w2 = (if pv then print_preview p ch w1 else w1)"
  have f2: "files w2 = files w1" "no_read w2 = no_read w1" "crlf w2 = crlf w1" "calls w2 = calls w1"
    unfolding w2_def by (simp_all add: print_preview_fields)
  obtain y w3 where mb: "make_backup_file p w2 = (y, w3)" by (cases "make_backup_file p w2")
  obtain x v where wl: "write_lines p nl w3 = (x, v)" by (cases "write_lines p nl w3")
  from assms have a: "(case y of Inl e \<Rightarrow> (Inl e, w3)
      | Inr u \<Rightarrow> (case x of Inl e \<Rightarrow> (Inl e, v) | Inr u \<Rightarrow> (Inr (True, ch), v))) = (Inr r, w')"
    unfolding after_scan_def w2_def [symmetric] by (simp add: mb wl split: sum.splits)
  then obtain u where y: "y = Inr u" by (cases y) auto
  with a obtain u' where x: "x = Inr u'" and r: "r = (True, ch)" and w': "w' = v"
    by (cases x) auto
  note b = make_backup_file_Inr [OF mb [unfolded y]]
  note f = write_lines_Inr [OF wl [unfolded x]]
  show "r = (True, ch)" by (rule r)
  show "p \<noteq> backup_path p" by (rule b(1))
  from b(2) obtain g where g: "files w2 p = Some g" "files w3 = (files w2)(backup_path p \<mapsto> g)"
    by blast
  have "files w1 p = Some g \<and>
       files w' = (files w1)(backup_path p \<mapsto> g, p \<mapsto> Text (write_newlines (crlf w1) (concat nl)))"
    using g f(2) b(5) f2 by (simp add: w')
  then show "\<exists>f. files w1 p = Some f \<and>
       files w' = (files w1)(backup_path p \<mapsto> f, p \<mapsto> Text (write_newlines (crlf w1) (concat nl)))"
    by blast
  show "no_read w' = no_read w1" "crlf w' = crlf w1"
    "calls w' = calls w1 @ [Copy p (backup_path p), Write_text p]"
    using f(3,5,6) b(3,5,6) f2 by (simp_all add: w')
qed

lemma smart_replace_Inl:
  "smart_replace_try p mb pv ap pd w = (Inl e, w') \<Longrightarrow>
   smart_replace p mb pv ap pd w = ((False, []), print_msg (Error_processing p e) w')"
  by (simp add: smart_replace_def)

lemma smart_replace_Inr:
  "smart_replace_try p mb pv ap pd w = (Inr r, w') \<Longrightarrow> smart_replace p mb pv ap pd w = (r, w')"
  by (simp add: smart_replace_def)

lemma after_scan_Inr_True:
  assumes "after_scan p mb pv ap nl ch w1 = (Inr r, w')"
  shows "r = (True, ch)"
proof (cases ap)
  case False
  with assms show ?thesis by (simp add: after_scan_dry)
next
  case True
  with assms show ?thesis
    by (cases mb) (auto dest: after_scan_apply_plain(1) after_scan_apply_backup(1))
qed

text \<open>A call that reports a change: the file was read, and the rest of the call ran to its end.\<close>

lemma smart_replace_changed:
  assumes "fst (fst (smart_replace p mb pv ap pd w))"
  shows "\<exists>content. fst (read_text p w) = Inr content \<and>
           (\<not> py_in ''DISABLED'' content \<or> pd) \<and>
           changes_from 1 (splitlines content) \<noteq> [] \<and>
           after_scan p mb pv ap (map new_line_of (splitlines content))
               (changes_from 1 (splitlines content)) (snd (read_text p w)) =
             (Inr (True, changes_from 1 (splitlines content)), snd (smart_replace p mb pv ap pd w)) \<and>
           fst (smart_replace p mb pv ap pd w) = (True, changes_from 1 (splitlines content))"
proof (cases "fst (read_text p w)")
  case (Inl e)
  from smart_replace_try_read_fail [OF Inl] have "fst (smart_replace p mb pv ap pd w) = (False, [])"
    by (simp add: smart_replace_def)
  with assms show ?thesis by simp
next
  case (Inr content)
  let ?L = "splitlines content"
  note t = smart_replace_try_read_ok [OF Inr, of mb pv ap pd]
  show ?thesis
  proof (cases "(py_in ''DISABLED'' content \<and> \<not> pd) \<or> changes_from 1 ?L = []")
    case True
    with t have "smart_replace_try p mb pv ap pd w = (Inr (False, []), snd (read_text p w))"
      by auto
    then have "fst (smart_replace p mb pv ap pd w) = (False, [])"
      by (simp add: smart_replace_def)
    with assms show ?thesis by simp
  next
    case False
    with t have e: "smart_replace_try p mb pv ap pd w =
        after_scan p mb pv ap (map new_line_of ?L) (changes_from 1 ?L) (snd (read_text p w))"
      by auto
    obtain x w' where a: "after_scan p mb pv ap (map new_line_of ?L) (changes_from 1 ?L)
        (snd (read_text p w)) = (x, w')"
      by (cases "after_scan p mb pv ap (map new_line_of ?L) (changes_from 1 ?L) (snd (read_text p w))")
    show ?thesis
    proof (cases x)
      case (Inl err)
      with e a have "fst (smart_replace p mb pv ap pd w) = (False, [])"
        by (simp add: smart_replace_def)
      with assms show ?thesis by simp
    next
      case r: (Inr r)
      from a [unfolded r] have rr: "r = (True, changes_from 1 ?L)" by (rule after_scan_Inr_True)
      from e a r have s: "smart_replace p mb pv ap pd w = (r, w')"
        by (simp add: smart_replace_def)
      from a r rr s Inr False show ?thesis by auto
    qed
  qed
qed

lemma read_text_snd_fields:
  "files (snd (read_text p w)) = files w" "no_read (snd (read_text p w)) = no_read w"
  "no_write (snd (read_text p w)) = no_write w" "crlf (snd (read_text p w)) = crlf w"
  "calls (snd (read_text p w)) = calls w @ [Read_text p]" "console (snd (read_text p w)) = console w"
  by (simp_all add: read_text_snd)

lemma read_text_Text:
  "files w p = Some (Text t) \<Longrightarrow> \<not> no_read w p \<Longrightarrow> fst (read_text p w) = Inr (universal_newlines t)"
  by (simp add: read_text_fst)

text \<open>After an apply that reports a change, the file reads as the new lines, one after another.\<close>

lemma applied_file:
  assumes "fst (fst (smart_replace p mb pv True pd w))"
  shows "\<exists>old. fst (read_text p w) = Inr old \<and> CR \<notin> set old \<and>
           fst (read_text p (snd (smart_replace p mb pv True pd w))) =
             Inr (concat (map new_line_of (splitlines old))) \<and>
           fst (smart_replace p mb pv True pd w) = (True, changes_from 1 (splitlines old))"
proof -
  let ?W = "snd (smart_replace p mb pv True pd w)"
  let ?w1 = "snd (read_text p w)"
  from smart_replace_changed [OF assms] obtain old where
    rd: "fst (read_text p w) = Inr old"
    and a: "after_scan p mb pv True (map new_line_of (splitlines old))
               (changes_from 1 (splitlines old)) ?w1 = (Inr (True, changes_from 1 (splitlines old)), ?W)"
    and r: "fst (smart_replace p mb pv True pd w) = (True, changes_from 1 (splitlines old))"
    by blast
  from read_text_Inr [OF rd] obtain t where
    t: "files w p = Some (Text t)" "\<not> no_read w p" "old = universal_newlines t" by blast
  from t(3) have cr: "CR \<notin> set old" by (simp add: universal_newlines_no_CR)
  let ?X = "write_newlines (crlf ?w1) (concat (map new_line_of (splitlines old)))"
  have f: "files ?W p = Some (Text ?X) \<and> no_read ?W = no_read ?w1"
  proof (cases mb)
    case False
    with a have a': "after_scan p False pv True (map new_line_of (splitlines old))
        (changes_from 1 (splitlines old)) ?w1 = (Inr (True, changes_from 1 (splitlines old)), ?W)"
      by simp
    from after_scan_apply_plain(2,3) [OF a'] show ?thesis by simp
  next
    case True
    with a have a': "after_scan p True pv True (map new_line_of (splitlines old))
        (changes_from 1 (splitlines old)) ?w1 = (Inr (True, changes_from 1 (splitlines old)), ?W)"
      by simp
    from after_scan_apply_backup(3,4) [OF a'] show ?thesis by auto
  qed
  then have "fst (read_text p ?W) = Inr (universal_newlines ?X)"
    using t(2) by (intro read_text_Text) (simp_all add: read_text_snd_fields)
  also have "universal_newlines ?X = concat (map new_line_of (splitlines old))"
    using rewritten_lines(2) [OF cr] by (rule universal_newlines_write)
  finally show ?thesis using rd cr r by blast
qed

lemma demo_applied: "fst (fst (smart_replace ''mods/face.ini'' True False True False demo_world))"
  by code_simp

lemma demo_read: "fst (read_text ''mods/face.ini'' demo_world) = Inr demo_text"
  by code_simp

lemma demo_lines: "length (splitlines demo_text) = 2"
  by code_simp


lemma new_line_of_nth:
  "i < length ls \<Longrightarrow>
   map new_line_of ls ! i =
     (case re_match pattern (rstrip_nl (ls ! i)) of
        None \<Rightarrow> ls ! i
      | Some g \<Rightarrow> takeWhile is_space (ls ! i) @ ''this = '' @ group1 g @ [LF])"
  by (simp add: new_line_of_def)

lemma py_in_iff: "py_in sub s \<longleftrightarrow> (\<exists>u v. s = u @ sub @ v)"
proof (induction s)
  case Nil
  show ?case by auto
next
  case (Cons c cs)
  show ?case
  proof
    assume "py_in sub (c # cs)"
    then consider "prefix sub (c # cs)" | "py_in sub cs" by auto
    then show "\<exists>u v. c # cs = u @ sub @ v"
    proof cases
      case 1
      then obtain v where "c # cs = sub @ v" by (auto simp: prefix_def)
      then have "c # cs = [] @ sub @ v" by simp
      then show ?thesis by blast
    next
      case 2
      with Cons obtain u v where "cs = u @ sub @ v" by blast
      then have "c # cs = (c # u) @ sub @ v" by simp
      then show ?thesis by blast
    qed
  next
    assume "\<exists>u v. c # cs = u @ sub @ v"
    then obtain u v where e: "c # cs = u @ sub @ v" by blast
    show "py_in sub (c # cs)"
    proof (cases u)
      case Nil
      with e have "prefix sub (c # cs)" by (simp add: prefix_def)
      then show ?thesis by simp
    next
      case (Cons a u')
      with e have "cs = u' @ sub @ v" by simp
      with Cons.IH have "py_in sub cs" by blast
      then show ?thesis by simp
    qed
  qed
qed

lemma universal_newlines_plain:
  "c \<noteq> CR \<Longrightarrow> universal_newlines (c # r) = c # universal_newlines r"
  by (cases r) simp_all

lemma universal_newlines_append:
  "c \<noteq> LF \<Longrightarrow> universal_newlines (u @ c # r) = universal_newlines u @ universal_newlines (c # r)"
proof (induction u rule: universal_newlines.induct)
  case 1
  show ?case by simp
next
  case (2 a)
  then show ?case by (cases r) auto
next
  case (3 a d ds)
  then show ?case by (cases "ds @ c # r") auto
qed

lemma marker_chars: "\<forall>c\<in>set ''DISABLED''. c \<noteq> CR \<and> c \<noteq> LF"
  by code_simp

lemma universal_newlines_marker:
  "universal_newlines (''DISABLED'' @ v) = ''DISABLED'' @ universal_newlines v"
  using marker_chars by (simp add: universal_newlines_plain del: universal_newlines.simps)

lemma py_in_universal_newlines:
  assumes "py_in ''DISABLED'' t"
  shows "py_in ''DISABLED'' (universal_newlines t)"
proof -
  from assms obtain u v where t: "t = u @ ''DISABLED'' @ v" unfolding py_in_iff by blast
  have "CHR ''D'' \<noteq> LF" using marker_chars by simp
  then have "universal_newlines (u @ CHR ''D'' # (''ISABLED'' @ v)) =
      universal_newlines u @ universal_newlines (CHR ''D'' # (''ISABLED'' @ v))"
    by (rule universal_newlines_append)
  then have "universal_newlines t = universal_newlines u @ ''DISABLED'' @ universal_newlines v"
    using universal_newlines_marker [of v] by (simp add: t)
  then show ?thesis unfolding py_in_iff by blast
qed

lemma smart_replace_read_fail:
  assumes "fst (read_text p w) = Inl e"
  shows "smart_replace p mb pv ap pd w =
           ((False, []), print_msg (Error_processing p e) (snd (read_text p w)))"
  using smart_replace_try_read_fail [OF assms] by (simp add: smart_replace_def)

lemma smart_replace_disabled:
  assumes "fst (read_text p w) = Inr content" "py_in ''DISABLED'' content"
  shows "smart_replace p mb pv ap False w = ((False, []), snd (read_text p w))"
  using smart_replace_try_read_ok [OF assms(1), of mb pv ap False] assms(2)
  by (simp add: smart_replace_def)

lemma smart_replace_no_match:
  assumes "fst (read_text p w) = Inr content"
    "\<forall>l\<in>set (splitlines content). re_match pattern (rstrip_nl l) = None"
  shows "smart_replace p mb pv ap pd w = ((False, []), snd (read_text p w))"
proof -
  from assms(2) have "changes_from 1 (splitlines content) = []"
    by (simp add: changes_from_Nil_iff)
  with smart_replace_try_read_ok [OF assms(1), of mb pv ap pd] show ?thesis
    by (simp add: smart_replace_def)
qed

lemma his_chars: "\<forall>c\<in>set ''his = ''. c \<noteq> LF"
  by code_simp

lemma dot_word_not_LF: "is_dot_word c \<Longrightarrow> c \<noteq> LF"
  using dot_word_not_space space_LF by blast

lemma rstrip_nl_new_line:
  assumes "\<forall>c\<in>set rhs. is_dot_word c"
  shows "rstrip_nl (ind @ ''this = '' @ rhs @ [LF]) = ind @ ''this = '' @ rhs"
proof -
  have "CHR ''t'' \<noteq> LF" by (simp add: LF_def)
  then have "rstrip_nl (ind @ CHR ''t'' # ((''his = '' @ rhs) @ [LF])) =
      ind @ CHR ''t'' # rstrip_nl ((''his = '' @ rhs) @ [LF])"
    by (rule rstrip_nl_prefix)
  moreover have "rstrip_nl ((''his = '' @ rhs) @ [LF]) = rstrip_nl (''his = '' @ rhs)"
    by (rule rstrip_nl_snoc)
  moreover have "\<forall>c\<in>set (''his = '' @ rhs). c \<noteq> LF"
  proof
    fix c assume "c \<in> set (''his = '' @ rhs)"
    then have "c \<in> set ''his = '' \<or> c \<in> set rhs" by (simp only: set_append Un_iff)
    with his_chars assms dot_word_not_LF show "c \<noteq> LF" by blast
  qed
  then have "rstrip_nl (''his = '' @ rhs) = ''his = '' @ rhs" by (rule rstrip_nl_id)
  ultimately show ?thesis by simp
qed

lemma ex1: "rewrite_line ''  ps-t0 = ResourceFaceDiffuse.normal'' =
    Inr (Some (''  this = ResourceFaceDiffuse.normal'' @ [LF]))"
  by code_simp

lemma ex2: "rewrite_line ''ps-t3=ResourceSomeFaceHeadNormalMap.1024'' =
    Inr (Some (''this = ResourceSomeFaceHeadNormalMap.1024'' @ [LF]))"
  by code_simp

lemma ex1_match: "re_match pattern (rstrip_nl (''  ps-t0 = ResourceFaceDiffuse.normal'' @ [LF])) =
    Some (Some ''ResourceFaceDiffuse.normal'')"
  by code_simp

lemma scan_step_match:
  assumes "re_match pattern (rstrip_nl line) = Some (Some rhs)" "\<forall>c\<in>set rhs. is_dot_word c"
  shows "scan idx (line # rest) new_lines changed =
     scan (idx + 1) rest (new_lines @ [takeWhile is_space line @ ''this = '' @ rhs @ [LF]])
       (changed @ [(idx, rstrip_nl line, takeWhile is_space line @ ''this = '' @ rhs)])"
proof -
  have n: "new_line_of line = takeWhile is_space line @ ''this = '' @ rhs @ [LF]"
    using assms(1) by (simp add: new_line_of_def group1_def)
  have "rewrite_line line = Inr (Some (new_line_of line))"
    using assms(1) by (simp add: rewrite_line_eq)
  then show ?thesis
    using rstrip_nl_new_line [OF assms(2), of "takeWhile is_space line"] by (simp add: n)
qed

lemma second_run:
  assumes "fst (fst (smart_replace p mb pv True pd w))"
  shows "smart_replace p mb' pv' ap' pd' (snd (smart_replace p mb pv True pd w)) =
           ((False, []), snd (read_text p (snd (smart_replace p mb pv True pd w))))"
proof -
  from applied_file [OF assms] obtain old where
    o: "CR \<notin> set old"
      "fst (read_text p (snd (smart_replace p mb pv True pd w))) =
         Inr (concat (map new_line_of (splitlines old)))"
    by blast
  have "changes_from 1 (splitlines (concat (map new_line_of (splitlines old)))) = []"
    unfolding rewritten_lines(1) [OF o(1)] by (rule changes_from_rewritten)
  then have "\<forall>l\<in>set (splitlines (concat (map new_line_of (splitlines old)))).
      re_match pattern (rstrip_nl l) = None"
    by (simp only: changes_from_Nil_iff)
  with o(2) show ?thesis by (rule smart_replace_no_match)
qed

section \<open>The claims\<close>

text \<open>
  C10. The rewrite keeps the number of lines. For the lines of any text as read, the loop
  ends without an exception with exactly one new line for each line: a line that matches
  is replaced by its one rewritten line, a line that does not match is kept, and each new
  line is one line of the new text. After an apply that reports a change, the file read
  again has as many lines as before, the i-th of them being the line written for the i-th
  line of the old file.
\<close>

theorem C10_line_count:
  assumes "lines = splitlines (universal_newlines t)"
  shows "(\<exists>new_lines changed_lines.
            scan 1 lines [] [] = Inr (new_lines, changed_lines) \<and>
            length new_lines = length lines \<and>
            splitlines (concat new_lines) = new_lines \<and>
            (\<forall>i<length lines. new_lines ! i =
               (case re_match pattern (rstrip_nl (lines ! i)) of
                  None \<Rightarrow> lines ! i
                | Some g \<Rightarrow> takeWhile is_space (lines ! i) @ ''this = '' @ group1 g @ [LF]))) \<and>
         (fst (fst (smart_replace p mb pv True pd w)) \<longrightarrow>
            (\<exists>old new.
               fst (read_text p w) = Inr old \<and>
               fst (read_text p (snd (smart_replace p mb pv True pd w))) = Inr new \<and>
               length (splitlines new) = length (splitlines old) \<and>
               (\<forall>i<length (splitlines old). splitlines new ! i =
                  (case re_match pattern (rstrip_nl (splitlines old ! i)) of
                     None \<Rightarrow> splitlines old ! i
                   | Some g \<Rightarrow>
                       takeWhile is_space (splitlines old ! i) @ ''this = '' @ group1 g @ [LF]))))"
proof (intro conjI impI)
  have cr: "CR \<notin> set (universal_newlines t)" by (rule universal_newlines_no_CR)
  have "scan 1 lines [] [] = Inr (map new_line_of lines, changes_from 1 lines) \<and>
        length (map new_line_of lines) = length lines \<and>
        splitlines (concat (map new_line_of lines)) = map new_line_of lines \<and>
        (\<forall>i<length lines. map new_line_of lines ! i =
           (case re_match pattern (rstrip_nl (lines ! i)) of
              None \<Rightarrow> lines ! i
            | Some g \<Rightarrow> takeWhile is_space (lines ! i) @ ''this = '' @ group1 g @ [LF]))"
    using rewritten_lines(1) [OF cr] new_line_of_nth [of _ lines]
    by (simp add: scan_closed assms)
  then show "\<exists>new_lines changed_lines.
            scan 1 lines [] [] = Inr (new_lines, changed_lines) \<and>
            length new_lines = length lines \<and>
            splitlines (concat new_lines) = new_lines \<and>
            (\<forall>i<length lines. new_lines ! i =
               (case re_match pattern (rstrip_nl (lines ! i)) of
                  None \<Rightarrow> lines ! i
                | Some g \<Rightarrow> takeWhile is_space (lines ! i) @ ''this = '' @ group1 g @ [LF]))"
    by blast
next
  assume "fst (fst (smart_replace p mb pv True pd w))"
  from applied_file [OF this] obtain old where
    o: "fst (read_text p w) = Inr old" "CR \<notin> set old"
      "fst (read_text p (snd (smart_replace p mb pv True pd w))) =
         Inr (concat (map new_line_of (splitlines old)))"
    by blast
  define new where "new = concat (map new_line_of (splitlines old))"
  have s: "splitlines new = map new_line_of (splitlines old)"
    unfolding new_def using o(2) by (rule rewritten_lines(1))
  have "fst (read_text p w) = Inr old \<and>
        fst (read_text p (snd (smart_replace p mb pv True pd w))) = Inr new \<and>
        length (splitlines new) = length (splitlines old) \<and>
        (\<forall>i<length (splitlines old). splitlines new ! i =
           (case re_match pattern (rstrip_nl (splitlines old ! i)) of
              None \<Rightarrow> splitlines old ! i
            | Some g \<Rightarrow>
                takeWhile is_space (splitlines old ! i) @ ''this = '' @ group1 g @ [LF]))"
    using o(1,3) new_line_of_nth [of _ "splitlines old"] by (simp add: s new_def [symmetric])
  then show "\<exists>old new.
       fst (read_text p w) = Inr old \<and>
       fst (read_text p (snd (smart_replace p mb pv True pd w))) = Inr new \<and>
       length (splitlines new) = length (splitlines old) \<and>
       (\<forall>i<length (splitlines old). splitlines new ! i =
          (case re_match pattern (rstrip_nl (splitlines old ! i)) of
             None \<Rightarrow> splitlines old ! i
           | Some g \<Rightarrow>
               takeWhile is_space (splitlines old ! i) @ ''this = '' @ group1 g @ [LF]))"
    by blast
qed

theorem C10_line_count_witness:
  "\<exists>new. fst (read_text ''mods/face.ini''
             (snd (smart_replace ''mods/face.ini'' True False True False demo_world))) = Inr new \<and>
         length (splitlines new) = 2"
proof -
  from C10_line_count [OF refl, where t = demo_text and p = "''mods/face.ini''" and mb = True
      and pv = False and pd = False and w = demo_world]
    demo_applied
  obtain old new where
    "fst (read_text ''mods/face.ini'' demo_world) = Inr old"
    "fst (read_text ''mods/face.ini''
       (snd (smart_replace ''mods/face.ini'' True False True False demo_world))) = Inr new"
    "length (splitlines new) = length (splitlines old)"
    by blast
  with demo_read demo_lines show ?thesis by auto
qed

text \<open>
  C4. A file whose content holds the text DISABLED, given to \<open>smart_replace\<close> with
  \<open>process_disabled\<close> false: the call returns false with no matches, whatever lines the file
  has and whatever the other flags are, the files are as before, and the only file-system
  call made is the read; when the file is readable text nothing is printed either.
\<close>

theorem C4_disabled_marker:
  assumes "files w p = Some f" "py_in ''DISABLED'' (case f of Text t \<Rightarrow> t | Garbled b \<Rightarrow> b)"
  shows "fst (smart_replace p mb pv ap False w) = (False, []) \<and>
         files (snd (smart_replace p mb pv ap False w)) = files w \<and>
         calls (snd (smart_replace p mb pv ap False w)) = calls w @ [Read_text p] \<and>
         ((\<exists>t. f = Text t) \<and> \<not> no_read w p \<longrightarrow>
            console (snd (smart_replace p mb pv ap False w)) = console w)"
proof (cases "fst (read_text p w)")
  case (Inl e)
  from assms(1) Inl have "\<not> ((\<exists>t. f = Text t) \<and> \<not> no_read w p)"
    by (auto simp: read_text_fst)
  with smart_replace_read_fail [OF Inl, of mb pv ap False] show ?thesis
    by (simp add: print_msg_fields read_text_snd_fields)
next
  case (Inr content)
  from read_text_Inr [OF Inr] assms have "py_in ''DISABLED'' content"
    by (auto intro: py_in_universal_newlines)
  from smart_replace_disabled [OF Inr this, of mb pv ap] show ?thesis
    by (simp add: read_text_snd_fields)
qed

theorem C4_disabled_marker_witness:
  "fst (smart_replace ''mods/off.ini'' True True True False demo_off_world) = (False, []) \<and>
   files (snd (smart_replace ''mods/off.ini'' True True True False demo_off_world)) ''mods/off.ini'' =
     Some (Text demo_off_text) \<and>
   fst (fst (smart_replace ''mods/off.ini'' True True True True demo_off_world))"
proof -
  have f: "files demo_off_world ''mods/off.ini'' = Some (Text demo_off_text)"
    by (simp add: demo_off_world_def)
  have m: "py_in ''DISABLED'' (case Text demo_off_text of Text t \<Rightarrow> t | Garbled b \<Rightarrow> b)"
    by code_simp
  have t: "fst (fst (smart_replace ''mods/off.ini'' True True True True demo_off_world))"
    by code_simp
  from C4_disabled_marker [OF f m, of True True True] f t show ?thesis by simp
qed

text \<open>
  C7. An exception raised inside \<open>smart_replace\<close> never leaves it: the call returns false
  with no matches and prints one message that names the file and the error. This holds for
  every error of the \<open>try\<close> block; in particular when the file cannot be read, and when
  the file has a matching line but cannot be written during an apply, in which case the
  files are as before.
\<close>

theorem C7_errors_contained:
  "(smart_replace_try p mb pv ap pd w = (Inl e, w') \<longrightarrow>
      smart_replace p mb pv ap pd w = ((False, []), print_msg (Error_processing p e) w')) \<and>
   (fst (read_text p w) = Inl e \<longrightarrow>
      smart_replace p mb pv ap pd w =
        ((False, []), print_msg (Error_processing p e) (snd (read_text p w)))) \<and>
   (fst (read_text p w) = Inr content \<and> (pd \<or> \<not> py_in ''DISABLED'' content) \<and>
    changes_from 1 (splitlines content) \<noteq> [] \<and> no_write w p \<longrightarrow>
      fst (smart_replace p False pv True pd w) = (False, []) \<and>
      files (snd (smart_replace p False pv True pd w)) = files w \<and>
      last (console (snd (smart_replace p False pv True pd w))) = Error_processing p PermissionError)"
proof -
  have 1: "smart_replace_try p mb pv ap pd w = (Inl e, w') \<longrightarrow>
      smart_replace p mb pv ap pd w = ((False, []), print_msg (Error_processing p e) w')"
    by (simp add: smart_replace_Inl)
  have 2: "fst (read_text p w) = Inl e \<longrightarrow>
      smart_replace p mb pv ap pd w =
        ((False, []), print_msg (Error_processing p e) (snd (read_text p w)))"
    by (simp add: smart_replace_read_fail)
  have 3: "fst (read_text p w) = Inr content \<and> (pd \<or> \<not> py_in ''DISABLED'' content) \<and>
    changes_from 1 (splitlines content) \<noteq> [] \<and> no_write w p \<longrightarrow>
      fst (smart_replace p False pv True pd w) = (False, []) \<and>
      files (snd (smart_replace p False pv True pd w)) = files w \<and>
      last (console (snd (smart_replace p False pv True pd w))) = Error_processing p PermissionError"
  proof
    assume a: "fst (read_text p w) = Inr content \<and> (pd \<or> \<not> py_in ''DISABLED'' content) \<and>
      changes_from 1 (splitlines content) \<noteq> [] \<and> no_write w p"
    let ?w1 = "snd (read_text p w)"
    let ?ch = "changes_from 1 (splitlines content)"
    define w2 where "w2 = (if pv then print_preview p ?ch ?w1 else ?w1)"
    have f2: "files w2 = files w" "no_write w2 = no_write w"
      unfolding w2_def by (simp_all add: print_preview_fields read_text_snd_fields)
    from a have "smart_replace_try p False pv True pd w =
        after_scan p False pv True (map new_line_of (splitlines content)) ?ch ?w1"
      using smart_replace_try_read_ok [of p w content False pv True pd] by auto
    also have "\<dots> = (Inl PermissionError, w2\<lparr>calls := calls w2 @ [Write_text p]\<rparr>)"
      using a f2 unfolding after_scan_def w2_def [symmetric]
      by (simp add: write_lines_def)
    finally have t: "smart_replace_try p False pv True pd w =
        (Inl PermissionError, w2\<lparr>calls := calls w2 @ [Write_text p]\<rparr>)" .
    from smart_replace_Inl [OF t]
    show "fst (smart_replace p False pv True pd w) = (False, []) \<and>
        files (snd (smart_replace p False pv True pd w)) = files w \<and>
        last (console (snd (smart_replace p False pv True pd w))) = Error_processing p PermissionError"
      using f2 by (simp add: print_msg_fields)
  qed
  show ?thesis by (intro conjI) (rule 1, rule 2, rule 3)
qed

theorem C7_errors_contained_witness:
  "fst (smart_replace ''mods/none.ini'' True True True False demo_world) = (False, []) \<and>
   console (snd (smart_replace ''mods/none.ini'' True True True False demo_world)) =
     [Error_processing ''mods/none.ini'' FileNotFoundError] \<and>
   fst (smart_replace ''mods/face.ini'' False False True False demo_locked_world) = (False, []) \<and>
   last (console (snd (smart_replace ''mods/face.ini'' False False True False demo_locked_world))) =
     Error_processing ''mods/face.ini'' PermissionError"
proof -
  have r: "fst (read_text ''mods/none.ini'' demo_world) = Inl FileNotFoundError"
    by code_simp
  have c: "console (snd (read_text ''mods/none.ini'' demo_world)) = []"
    by (simp add: read_text_snd_fields demo_world_def)
  have l: "fst (read_text ''mods/face.ini'' demo_locked_world) = Inr demo_text \<and>
      (False \<or> \<not> py_in ''DISABLED'' demo_text) \<and>
      changes_from 1 (splitlines demo_text) \<noteq> [] \<and> no_write demo_locked_world ''mods/face.ini''"
    by code_simp
  from C7_errors_contained [where p = "''mods/none.ini''" and w = demo_world
      and e = FileNotFoundError and mb = True and pv = True and ap = True and pd = False] r c
  have 1: "fst (smart_replace ''mods/none.ini'' True True True False demo_world) = (False, []) \<and>
   console (snd (smart_replace ''mods/none.ini'' True True True False demo_world)) =
     [Error_processing ''mods/none.ini'' FileNotFoundError]"
    by (simp add: print_msg_fields)
  from C7_errors_contained [where p = "''mods/face.ini''" and w = demo_locked_world
      and content = demo_text and pv = False and pd = False] l
  have 2: "fst (smart_replace ''mods/face.ini'' False False True False demo_locked_world) = (False, []) \<and>
   last (console (snd (smart_replace ''mods/face.ini'' False False True False demo_locked_world))) =
     Error_processing ''mods/face.ini'' PermissionError"
    by blast
  from 1 2 show ?thesis by blast
qed



text \<open>
  C1. A line that matches the pattern has the shape indentation, \<open>ps-t\<close> in any case, digits,
  optional blanks, \<open>=\<close>, optional blanks, the resource identifier (group 1, beginning with
  \<open>Resource\<close> in any case and made of word characters and dots) and trailing blanks. The
  loop writes for it the line made of the same indentation, \<open>this = \<close> and the same
  identifier, followed by a newline, and records the change with that line without its
  newline; after an apply that reports a change the file read again has that line at the
  place of the matched one. The two lines of the specification are rewritten as it says.
\<close>

theorem C1_rewrite_of_matching_line:
  "(re_match pattern (rstrip_nl line) = Some g \<longrightarrow>
      (\<exists>k d ds ws1 ws2 rhs trail r r'.
         g = Some rhs \<and>
         line = takeWhile is_space line @ k @ d # ds @ ws1 @ CHR ''='' # ws2 @ rhs @ trail \<and>
         lower k = ''ps-t'' \<and> is_digit d \<and> (\<forall>c\<in>set ds. is_digit c) \<and>
         (\<forall>c\<in>set ws1. is_space c) \<and> (\<forall>c\<in>set ws2. is_space c) \<and>
         (\<forall>c\<in>set rhs. is_dot_word c) \<and> rhs = r @ r' \<and> lower r = ''resource'' \<and>
         (\<forall>c\<in>set trail. is_space c) \<and>
         rewrite_line line = Inr (Some (takeWhile is_space line @ ''this = '' @ rhs @ [LF])) \<and>
         scan idx (line # rest) new_lines changed =
           scan (idx + 1) rest (new_lines @ [takeWhile is_space line @ ''this = '' @ rhs @ [LF]])
             (changed @ [(idx, rstrip_nl line, takeWhile is_space line @ ''this = '' @ rhs)]))) \<and>
   (fst (fst (smart_replace p mb pv True pd w)) \<longrightarrow>
      (\<exists>old new.
         fst (read_text p w) = Inr old \<and>
         fst (read_text p (snd (smart_replace p mb pv True pd w))) = Inr new \<and>
         (\<forall>i<length (splitlines old). \<forall>rhs.
            re_match pattern (rstrip_nl (splitlines old ! i)) = Some (Some rhs) \<longrightarrow>
              splitlines new ! i = takeWhile is_space (splitlines old ! i) @ ''this = '' @ rhs @ [LF]))) \<and>
   rewrite_line ''  ps-t0 = ResourceFaceDiffuse.normal'' =
     Inr (Some (''  this = ResourceFaceDiffuse.normal'' @ [LF])) \<and>
   rewrite_line ''ps-t3=ResourceSomeFaceHeadNormalMap.1024'' =
     Inr (Some (''this = ResourceSomeFaceHeadNormalMap.1024'' @ [LF]))"
proof -
  have 1: "re_match pattern (rstrip_nl line) = Some g \<longrightarrow>
      (\<exists>k d ds ws1 ws2 rhs trail r r'.
         g = Some rhs \<and>
         line = takeWhile is_space line @ k @ d # ds @ ws1 @ CHR ''='' # ws2 @ rhs @ trail \<and>
         lower k = ''ps-t'' \<and> is_digit d \<and> (\<forall>c\<in>set ds. is_digit c) \<and>
         (\<forall>c\<in>set ws1. is_space c) \<and> (\<forall>c\<in>set ws2. is_space c) \<and>
         (\<forall>c\<in>set rhs. is_dot_word c) \<and> rhs = r @ r' \<and> lower r = ''resource'' \<and>
         (\<forall>c\<in>set trail. is_space c) \<and>
         rewrite_line line = Inr (Some (takeWhile is_space line @ ''this = '' @ rhs @ [LF])) \<and>
         scan idx (line # rest) new_lines changed =
           scan (idx + 1) rest (new_lines @ [takeWhile is_space line @ ''this = '' @ rhs @ [LF]])
             (changed @ [(idx, rstrip_nl line, takeWhile is_space line @ ''this = '' @ rhs)]))"
  proof
    assume m: "re_match pattern (rstrip_nl line) = Some g"
    from matched_line [OF m] obtain k d ds ws1 ws2 rhs trail where
      a: "g = Some rhs"
        "line = takeWhile is_space line @ k @ d # ds @ ws1 @ CHR ''='' # ws2 @ rhs @ trail"
        "lower k = ''ps-t''" "is_digit d" "\<forall>c\<in>set ds. is_digit c"
        "\<forall>c\<in>set ws1. is_space c" "\<forall>c\<in>set ws2. is_space c"
        "\<forall>c\<in>set rhs. is_dot_word c" "\<forall>c\<in>set trail. is_space c"
        "new_line_of line = takeWhile is_space line @ ''this = '' @ rhs @ [LF]"
      by blast
    from re_match_pattern_resource [OF m] a(1) obtain r r' where
      b: "rhs = r @ r'" "lower r = ''resource''" by auto
    have c: "rewrite_line line = Inr (Some (takeWhile is_space line @ ''this = '' @ rhs @ [LF]))"
      using m a(10) by (simp add: rewrite_line_eq)
    from m a(1) have m': "re_match pattern (rstrip_nl line) = Some (Some rhs)" by simp
    note d = scan_step_match [OF m' a(8), of idx rest new_lines changed]
    from a(1-9) b c d show "\<exists>k d ds ws1 ws2 rhs trail r r'.
         g = Some rhs \<and>
         line = takeWhile is_space line @ k @ d # ds @ ws1 @ CHR ''='' # ws2 @ rhs @ trail \<and>
         lower k = ''ps-t'' \<and> is_digit d \<and> (\<forall>c\<in>set ds. is_digit c) \<and>
         (\<forall>c\<in>set ws1. is_space c) \<and> (\<forall>c\<in>set ws2. is_space c) \<and>
         (\<forall>c\<in>set rhs. is_dot_word c) \<and> rhs = r @ r' \<and> lower r = ''resource'' \<and>
         (\<forall>c\<in>set trail. is_space c) \<and>
         rewrite_line line = Inr (Some (takeWhile is_space line @ ''this = '' @ rhs @ [LF])) \<and>
         scan idx (line # rest) new_lines changed =
           scan (idx + 1) rest (new_lines @ [takeWhile is_space line @ ''this = '' @ rhs @ [LF]])
             (changed @ [(idx, rstrip_nl line, takeWhile is_space line @ ''this = '' @ rhs)])"
      by (intro exI conjI)
  qed
  have 2: "fst (fst (smart_replace p mb pv True pd w)) \<longrightarrow>
      (\<exists>old new.
         fst (read_text p w) = Inr old \<and>
         fst (read_text p (snd (smart_replace p mb pv True pd w))) = Inr new \<and>
         (\<forall>i<length (splitlines old). \<forall>rhs.
            re_match pattern (rstrip_nl (splitlines old ! i)) = Some (Some rhs) \<longrightarrow>
              splitlines new ! i = takeWhile is_space (splitlines old ! i) @ ''this = '' @ rhs @ [LF]))"
  proof
    assume "fst (fst (smart_replace p mb pv True pd w))"
    from applied_file [OF this] obtain old where
      o: "fst (read_text p w) = Inr old" "CR \<notin> set old"
        "fst (read_text p (snd (smart_replace p mb pv True pd w))) =
           Inr (concat (map new_line_of (splitlines old)))"
      by blast
    define new where "new = concat (map new_line_of (splitlines old))"
    have s: "splitlines new = map new_line_of (splitlines old)"
      unfolding new_def using o(2) by (rule rewritten_lines(1))
    have "fst (read_text p w) = Inr old \<and>
         fst (read_text p (snd (smart_replace p mb pv True pd w))) = Inr new \<and>
         (\<forall>i<length (splitlines old). \<forall>rhs.
            re_match pattern (rstrip_nl (splitlines old ! i)) = Some (Some rhs) \<longrightarrow>
              splitlines new ! i = takeWhile is_space (splitlines old ! i) @ ''this = '' @ rhs @ [LF])"
      using o(1,3) by (simp add: s new_def [symmetric] new_line_of_def group1_def)
    then show "\<exists>old new.
         fst (read_text p w) = Inr old \<and>
         fst (read_text p (snd (smart_replace p mb pv True pd w))) = Inr new \<and>
         (\<forall>i<length (splitlines old). \<forall>rhs.
            re_match pattern (rstrip_nl (splitlines old ! i)) = Some (Some rhs) \<longrightarrow>
              splitlines new ! i = takeWhile is_space (splitlines old ! i) @ ''this = '' @ rhs @ [LF])"
      by blast
  qed
  show ?thesis by (intro conjI) (rule 1, rule 2, rule ex1, rule ex2)
qed

theorem C1_rewrite_of_matching_line_witness:
  "rewrite_line (''  ps-t0 = ResourceFaceDiffuse.normal'' @ [LF]) =
     Inr (Some (''  this = ResourceFaceDiffuse.normal'' @ [LF]))"
proof -
  note t = C1_rewrite_of_matching_line [where line = "''  ps-t0 = ResourceFaceDiffuse.normal'' @ [LF]"
      and g = "Some ''ResourceFaceDiffuse.normal''" and idx = 1 and rest = "[]" and new_lines = "[]"
      and changed = "[]" and p = "''mods/face.ini''" and mb = True and pv = False and pd = False
      and w = demo_world]
  from t [THEN conjunct1] ex1_match
  obtain rhs where "Some ''ResourceFaceDiffuse.normal'' = Some rhs"
    "rewrite_line (''  ps-t0 = ResourceFaceDiffuse.normal'' @ [LF]) =
       Inr (Some (takeWhile is_space (''  ps-t0 = ResourceFaceDiffuse.normal'' @ [LF]) @
         ''this = '' @ rhs @ [LF]))"
    by blast
  moreover have "takeWhile is_space (''  ps-t0 = ResourceFaceDiffuse.normal'' @ [LF]) = ''  ''"
    by code_simp
  ultimately show ?thesis by simp
qed

text \<open>
  C2. The rewrite is idempotent. A line made of blanks, \<open>this = \<close> and anything after it does
  not match the pattern, so the line written for a matching line never matches again. For
  the lines of any text as read, scanning the new lines once more changes nothing. After an
  apply that reports a change, a second call on the same file, with any flags, returns false
  with no matches, makes no file-system call but the read, and leaves the files and the
  console as they are.
\<close>

theorem C2_idempotent:
  "((\<forall>c\<in>set ind. is_space c) \<longrightarrow>
      re_match pattern (rstrip_nl (ind @ ''this = '' @ rhs @ [LF])) = None) \<and>
   (\<exists>new_lines changed_lines.
      scan 1 (splitlines (universal_newlines t)) [] [] = Inr (new_lines, changed_lines) \<and>
      scan 1 (splitlines (concat new_lines)) [] [] = Inr (new_lines, [])) \<and>
   (fst (fst (smart_replace p mb pv True pd w)) \<longrightarrow>
      fst (smart_replace p mb' pv' ap' pd' (snd (smart_replace p mb pv True pd w))) = (False, []) \<and>
      files (snd (smart_replace p mb' pv' ap' pd' (snd (smart_replace p mb pv True pd w)))) =
        files (snd (smart_replace p mb pv True pd w)) \<and>
      calls (snd (smart_replace p mb' pv' ap' pd' (snd (smart_replace p mb pv True pd w)))) =
        calls (snd (smart_replace p mb pv True pd w)) @ [Read_text p] \<and>
      console (snd (smart_replace p mb' pv' ap' pd' (snd (smart_replace p mb pv True pd w)))) =
        console (snd (smart_replace p mb pv True pd w)))"
proof -
  have 1: "(\<forall>c\<in>set ind. is_space c) \<longrightarrow>
      re_match pattern (rstrip_nl (ind @ ''this = '' @ rhs @ [LF])) = None"
    using this_no_match [of ind rhs] by blast
  have 2: "\<exists>new_lines changed_lines.
      scan 1 (splitlines (universal_newlines t)) [] [] = Inr (new_lines, changed_lines) \<and>
      scan 1 (splitlines (concat new_lines)) [] [] = Inr (new_lines, [])"
  proof -
    let ?L = "splitlines (universal_newlines t)"
    have cr: "CR \<notin> set (universal_newlines t)" by (rule universal_newlines_no_CR)
    have "scan 1 (splitlines (concat (map new_line_of ?L))) [] [] =
        Inr (map new_line_of (map new_line_of ?L), changes_from 1 (map new_line_of ?L))"
      unfolding rewritten_lines(1) [OF cr] by (simp add: scan_closed)
    then have "scan 1 ?L [] [] = Inr (map new_line_of ?L, changes_from 1 ?L) \<and>
        scan 1 (splitlines (concat (map new_line_of ?L))) [] [] = Inr (map new_line_of ?L, [])"
      by (simp add: scan_closed changes_from_rewritten new_line_of_idem)
    then show ?thesis by blast
  qed
  have 3: "fst (fst (smart_replace p mb pv True pd w)) \<longrightarrow>
      fst (smart_replace p mb' pv' ap' pd' (snd (smart_replace p mb pv True pd w))) = (False, []) \<and>
      files (snd (smart_replace p mb' pv' ap' pd' (snd (smart_replace p mb pv True pd w)))) =
        files (snd (smart_replace p mb pv True pd w)) \<and>
      calls (snd (smart_replace p mb' pv' ap' pd' (snd (smart_replace p mb pv True pd w)))) =
        calls (snd (smart_replace p mb pv True pd w)) @ [Read_text p] \<and>
      console (snd (smart_replace p mb' pv' ap' pd' (snd (smart_replace p mb pv True pd w)))) =
        console (snd (smart_replace p mb pv True pd w))"
    by (simp add: second_run read_text_snd_fields)
  show ?thesis by (intro conjI) (rule 1, rule 2, rule 3)
qed

theorem C2_idempotent_witness:
  "fst (smart_replace ''mods/face.ini'' True True True False
          (snd (smart_replace ''mods/face.ini'' True False True False demo_world))) = (False, [])"
  using C2_idempotent [where p = "''mods/face.ini''" and mb = True and pv = False and pd = False
      and w = demo_world and mb' = True and pv' = True and ap' = True and pd' = False
      and ind = "[]" and rhs = "[]" and t = "[]", THEN conjunct2, THEN conjunct2] demo_applied
  by blast

text \<open>
  C5. After an apply with \<open>make_backup\<close> that reports a change: the file had at least one
  matching line; the backup path is the path without its extension followed by
  \<open>_backup.bak\<close> and differs from the path; the backup holds exactly what the original
  held before the call, whatever was at the backup path before; the original holds the
  new lines one after another and nothing else; no other file has changed; and the
  file-system calls were the read, then the copy to the backup, then the write.
\<close>

theorem C5_backup_then_overwrite:
  assumes "fst (fst (smart_replace p True pv True pd w))"
  shows "\<exists>f old new_lines changed_lines.
     files w p = Some f \<and> fst (read_text p w) = Inr old \<and>
     scan 1 (splitlines old) [] [] = Inr (new_lines, changed_lines) \<and> changed_lines \<noteq> [] \<and>
     backup_path p = fst (splitext p) @ ''_backup.bak'' \<and> backup_path p \<noteq> p \<and>
     files (snd (smart_replace p True pv True pd w)) (backup_path p) = Some f \<and>
     files (snd (smart_replace p True pv True pd w)) p =
       Some (Text (write_newlines (crlf w) (concat new_lines))) \<and>
     (\<forall>q. q \<noteq> p \<and> q \<noteq> backup_path p \<longrightarrow>
        files (snd (smart_replace p True pv True pd w)) q = files w q) \<and>
     calls (snd (smart_replace p True pv True pd w)) =
       calls w @ [Read_text p, Copy p (backup_path p), Write_text p]"
proof -
  let ?W = "snd (smart_replace p True pv True pd w)"
  let ?w1 = "snd (read_text p w)"
  from smart_replace_changed [OF assms] obtain old where
    rd: "fst (read_text p w) = Inr old"
    and ne: "changes_from 1 (splitlines old) \<noteq> []"
    and a: "after_scan p True pv True (map new_line_of (splitlines old))
               (changes_from 1 (splitlines old)) ?w1 = (Inr (True, changes_from 1 (splitlines old)), ?W)"
    by blast
  note b = after_scan_apply_backup [OF a]
  from b(3) obtain f where f: "files ?w1 p = Some f"
    "files ?W = (files ?w1)(backup_path p \<mapsto> f,
        p \<mapsto> Text (write_newlines (crlf ?w1) (concat (map new_line_of (splitlines old)))))"
    by blast
  have 1: "files w p = Some f" using f(1) by (simp add: read_text_snd_fields)
  have 2: "scan 1 (splitlines old) [] [] =
      Inr (map new_line_of (splitlines old), changes_from 1 (splitlines old))"
    by (simp add: scan_closed)
  have 3: "backup_path p = fst (splitext p) @ ''_backup.bak''" by (simp add: backup_path_def)
  have 4: "backup_path p \<noteq> p" using b(2) by (rule not_sym)
  have 5: "files ?W (backup_path p) = Some f" using f(2) b(2) by simp
  have 6: "files ?W p =
      Some (Text (write_newlines (crlf w) (concat (map new_line_of (splitlines old)))))"
    using f(2) by (simp add: read_text_snd_fields)
  have 7: "\<forall>q. q \<noteq> p \<and> q \<noteq> backup_path p \<longrightarrow> files ?W q = files w q"
    using f(2) by (simp add: read_text_snd_fields)
  have 8: "calls ?W = calls w @ [Read_text p, Copy p (backup_path p), Write_text p]"
    using b(6) by (simp add: read_text_snd_fields)
  from 1 rd 2 ne 3 4 5 6 7 8 show ?thesis by (intro exI conjI)
qed

theorem C5_backup_then_overwrite_witness:
  "backup_path ''mods/face.ini'' = ''mods/face_backup.bak'' \<and>
   files (snd (smart_replace ''mods/face.ini'' True False True False demo_backup_world))
     ''mods/face_backup.bak'' = Some (Text demo_text) \<and>
   calls (snd (smart_replace ''mods/face.ini'' True False True False demo_backup_world)) =
     [Read_text ''mods/face.ini'', Copy ''mods/face.ini'' ''mods/face_backup.bak'',
      Write_text ''mods/face.ini'']"
proof -
  have a: "fst (fst (smart_replace ''mods/face.ini'' True False True False demo_backup_world))"
    by code_simp
  have b: "backup_path ''mods/face.ini'' = ''mods/face_backup.bak''"
    by code_simp
  have c: "files demo_backup_world ''mods/face.ini'' = Some (Text demo_text)"
    "calls demo_backup_world = []"
    by (simp_all add: demo_backup_world_def)
  from C5_backup_then_overwrite [OF a] obtain f where
    "files demo_backup_world ''mods/face.ini'' = Some f"
    "files (snd (smart_replace ''mods/face.ini'' True False True False demo_backup_world))
       (backup_path ''mods/face.ini'') = Some f"
    "calls (snd (smart_replace ''mods/face.ini'' True False True False demo_backup_world)) =
       calls demo_backup_world @ [Read_text ''mods/face.ini'',
         Copy ''mods/face.ini'' (backup_path ''mods/face.ini''), Write_text ''mods/face.ini'']"
    by blast
  with b c show ?thesis by simp
qed

end
